theory Spec2Isabelle
  imports Complex_Main "HOL-Library.Sublist" "HOL-Library.List_Lexorder"
begin

section \<open>Text: strings, whitespace, splitting\<close>

text \<open>
  A Python \<^verbatim>\<open>str\<close> is a sequence of Unicode code points, so a string is modelled as
  a list of code points (integers); \<open>length\<close> then counts what \<^verbatim>\<open>len\<close> counts.
  \<open>str\<close> turns an ASCII literal into that form.
\<close>

type_synonym str = "int list"

definition str :: "string \<Rightarrow> str" where
  "str s = map of_char s"

text \<open>
  \<^verbatim>\<open>str.isspace\<close> for one character, the set that \<^verbatim>\<open>str.strip()\<close> removes:
  U+0009..U+000D, U+001C..U+0020, U+0085, U+00A0, U+1680, U+2000..U+200A, U+2028, U+2029,
  U+202F, U+205F, U+3000.
\<close>

definition isspace :: "int \<Rightarrow> bool" where
  "isspace c \<longleftrightarrow>
     (9 \<le> c \<and> c \<le> 13) \<or> (28 \<le> c \<and> c \<le> 32) \<or> c = 133 \<or> c = 160 \<or> c = 5760 \<or>
     (8192 \<le> c \<and> c \<le> 8202) \<or> c = 8232 \<or> c = 8233 \<or> c = 8239 \<or> c = 8287 \<or> c = 12288"

definition strip :: "str \<Rightarrow> str" where
  "strip s = rev (dropWhile isspace (rev (dropWhile isspace s)))"

text \<open>
  \<^verbatim>\<open>s.split(sep)\<close> for a non-empty separator: scan from the left, cut at each
  occurrence of \<open>sep\<close> and go on behind it. \<open>cur\<close> is the part collected so far.
  (Python raises ValueError for an empty separator; the only call passes the
  ten-character marker.)
\<close>

function split_from :: "'a list \<Rightarrow> 'a list \<Rightarrow> 'a list \<Rightarrow> 'a list list" where
  "split_from sep cur [] = [cur]"
| "split_from sep cur (c # cs) =
     (if sep \<noteq> [] \<and> prefix sep (c # cs)
      then cur # split_from sep [] (drop (length sep) (c # cs))
      else split_from sep (cur @ [c]) cs)"
  by pat_completeness auto
termination
  by (relation "measure (\<lambda>(sep, cur, s). length s)") (auto simp: neq_Nil_conv)

definition split :: "'a list \<Rightarrow> 'a list \<Rightarrow> 'a list list" where
  "split s sep = split_from sep [] s"

text \<open>The record separator of \<^verbatim>\<open>split_entries\<close>: ten equals signs (U+003D).\<close>

definition SEPARATOR :: str where
  "SEPARATOR = replicate 10 61"

text \<open>
  \<^verbatim>\<open>
  def split_entries(content):
      parts = content.split("==========")
      return [p.strip() for p in parts if p.strip()]
  \<close>
\<close>

definition split_entries :: "str \<Rightarrow> str list" where
  "split_entries content =
     (let parts = split content SEPARATOR in [strip p. p \<leftarrow> parts, strip p \<noteq> []])"

section \<open>The sequence matcher of the standard library\<close>

text \<open>
  \<^verbatim>\<open>difflib.SequenceMatcher(None, a, b)\<close> as CPython implements it, with no junk
  predicate and \<^verbatim>\<open>autojunk\<close> left on.

  \<open>b2j b elt\<close> is the list of positions of \<open>elt\<close> in \<open>b\<close>, in increasing order, as
  \<^verbatim>\<open>__chain_b\<close> builds it; when \<open>b\<close> has at least 200 elements, an element that occurs
  more than \<open>len(b) // 100 + 1\<close> times is "popular" and has no entry.
\<close>

fun indices_from :: "nat \<Rightarrow> 'a list \<Rightarrow> 'a \<Rightarrow> nat list" where
  "indices_from i [] elt = []"
| "indices_from i (x # xs) elt =
     (if x = elt then i # indices_from (Suc i) xs elt else indices_from (Suc i) xs elt)"

definition b2j :: "'a list \<Rightarrow> 'a \<Rightarrow> nat list" where
  "b2j b elt =
     (let idxs = indices_from 0 b elt
      in if 200 \<le> length b \<and> length b div 100 + 1 < length idxs then [] else idxs)"

text \<open>
  The dictionary \<^verbatim>\<open>j2len\<close> is an association list; \<^verbatim>\<open>j2len.get(j-1, 0)\<close> is
  \<open>j2lenget\<close>, where the key \<open>-1\<close> (for \<open>j = 0\<close>) is never present.
\<close>

definition j2lenget :: "(nat \<times> nat) list \<Rightarrow> nat \<Rightarrow> nat" where
  "j2lenget j2len j =
     (if j = 0 then 0 else case map_of j2len (j - 1) of None \<Rightarrow> 0 | Some v \<Rightarrow> v)"

text \<open>
  The inner loop of \<^verbatim>\<open>find_longest_match\<close> over the positions \<open>j\<close> of \<open>a[i]\<close> in
  \<open>b\<close>: \<^verbatim>\<open>continue\<close> below \<open>blo\<close>, \<^verbatim>\<open>break\<close> from \<open>bhi\<close> on. The state is
  \<open>(newj2len, besti, bestj, bestsize)\<close>.
\<close>

fun inner_loop ::
  "nat \<Rightarrow> nat \<Rightarrow> nat \<Rightarrow> (nat \<times> nat) list \<Rightarrow> nat list \<Rightarrow>
   (nat \<times> nat) list \<times> nat \<times> nat \<times> nat \<Rightarrow> (nat \<times> nat) list \<times> nat \<times> nat \<times> nat" where
  "inner_loop i blo bhi j2len [] st = st"
| "inner_loop i blo bhi j2len (j # js) (newj2len, besti, bestj, bestsize) =
     (if j < blo then inner_loop i blo bhi j2len js (newj2len, besti, bestj, bestsize)
      else if bhi \<le> j then (newj2len, besti, bestj, bestsize)
      else let k = j2lenget j2len j + 1 in
        if bestsize < k
        then inner_loop i blo bhi j2len js ((j, k) # newj2len, i + 1 - k, j + 1 - k, k)
        else inner_loop i blo bhi j2len js ((j, k) # newj2len, besti, bestj, bestsize))"

text \<open>The outer loop \<^verbatim>\<open>for i in range(alo, ahi)\<close>; the state is \<open>(j2len, best)\<close>.\<close>

fun outer_loop ::
  "'a list \<Rightarrow> 'a list \<Rightarrow> nat \<Rightarrow> nat \<Rightarrow> nat list \<Rightarrow>
   (nat \<times> nat) list \<times> nat \<times> nat \<times> nat \<Rightarrow> nat \<times> nat \<times> nat" where
  "outer_loop a b blo bhi [] (j2len, best) = best"
| "outer_loop a b blo bhi (i # is) (j2len, best) =
     outer_loop a b blo bhi is (inner_loop i blo bhi j2len (b2j b (a ! i)) ([], best))"

text \<open>
  The two loops that extend the best block over equal elements on each side. The junk set
  is empty, so the two further loops of the source, which extend over junk only, never run.
\<close>

function extend_left :: "'a list \<Rightarrow> 'a list \<Rightarrow> nat \<Rightarrow> nat \<Rightarrow> nat \<times> nat \<times> nat \<Rightarrow> nat \<times> nat \<times> nat" where
  "extend_left a b alo blo (besti, bestj, bestsize) =
     (if alo < besti \<and> blo < bestj \<and> a ! (besti - 1) = b ! (bestj - 1)
      then extend_left a b alo blo (besti - 1, bestj - 1, bestsize + 1)
      else (besti, bestj, bestsize))"
  by pat_completeness auto
termination
  by (relation "measure (\<lambda>(a, b, alo, blo, besti, bestj, bestsize). besti)") auto

declare extend_left.simps [simp del]

function extend_right :: "'a list \<Rightarrow> 'a list \<Rightarrow> nat \<Rightarrow> nat \<Rightarrow> nat \<times> nat \<times> nat \<Rightarrow> nat \<times> nat \<times> nat" where
  "extend_right a b ahi bhi (besti, bestj, bestsize) =
     (if besti + bestsize < ahi \<and> bestj + bestsize < bhi \<and>
         a ! (besti + bestsize) = b ! (bestj + bestsize)
      then extend_right a b ahi bhi (besti, bestj, bestsize + 1)
      else (besti, bestj, bestsize))"
  by pat_completeness auto
termination
  by (relation "measure (\<lambda>(a, b, ahi, bhi, besti, bestj, bestsize). ahi - (besti + bestsize))") auto

declare extend_right.simps [simp del]

definition find_longest_match ::
  "'a list \<Rightarrow> 'a list \<Rightarrow> nat \<Rightarrow> nat \<Rightarrow> nat \<Rightarrow> nat \<Rightarrow> nat \<times> nat \<times> nat" where
  "find_longest_match a b alo ahi blo bhi =
     extend_right a b ahi bhi
       (extend_left a b alo blo
          (outer_loop a b blo bhi [alo..<ahi] ([], (alo, blo, 0))))"

text \<open>
  \<^verbatim>\<open>get_matching_blocks\<close>: the work list of the source holds ranges that do not
  depend on each other, so the loop is written as a recursion: the longest block of the
  range, then the blocks to its right (pushed last, popped first), then those to its left.
  The result is the list of blocks before the source sorts it, merges adjacent blocks and
  appends the empty sentinel block, none of which changes the sum of the sizes.
\<close>

definition best_inv :: "nat \<Rightarrow> nat \<Rightarrow> nat \<times> nat \<times> nat \<Rightarrow> bool" where
  "best_inv alo ahi best =
     (case best of (besti, bestj, bestsize) \<Rightarrow>
        (bestsize = 0 \<and> besti = alo) \<or> (0 < bestsize \<and> besti < ahi \<and> alo < besti + bestsize))"

lemma inner_loop_inv:
  "best_inv alo ahi best \<Longrightarrow> alo \<le> i \<Longrightarrow> i < ahi \<Longrightarrow>
   best_inv alo ahi (snd (inner_loop i blo bhi j2len js (new, best)))"
proof (induction js arbitrary: new best)
  case Nil
  then show ?case by simp
next
  case (Cons j js)
  obtain besti bestj bestsize where best: "best = (besti, bestj, bestsize)"
    by (cases best) auto
  define k where "k = j2lenget j2len j + 1"
  have fresh: "best_inv alo ahi (i + 1 - k, j + 1 - k, k)"
    using Cons.prems(2,3) by (auto simp: best_inv_def k_def)
  consider "j < blo" | "\<not> j < blo" "bhi \<le> j" | "\<not> j < blo" "\<not> bhi \<le> j" "bestsize < k"
    | "\<not> j < blo" "\<not> bhi \<le> j" "\<not> bestsize < k"
    by blast
  then show ?case
  proof cases
    case 1
    then show ?thesis
      using Cons.IH [OF Cons.prems(1) Cons.prems(2) Cons.prems(3), of new] by (simp add: best)
  next
    case 2
    then show ?thesis
      using Cons.prems(1) by (simp add: best)
  next
    case 3
    have "inner_loop i blo bhi j2len (j # js) (new, best) =
        inner_loop i blo bhi j2len js ((j, k) # new, i + 1 - k, j + 1 - k, k)"
      using 3 unfolding best k_def inner_loop.simps Let_def by simp
    then show ?thesis
      using Cons.IH [OF fresh Cons.prems(2) Cons.prems(3), of "(j, k) # new"] by simp
  next
    case 4
    have "inner_loop i blo bhi j2len (j # js) (new, best) =
        inner_loop i blo bhi j2len js ((j, k) # new, best)"
      using 4 unfolding best k_def inner_loop.simps Let_def by simp
    then show ?thesis
      using Cons.IH [OF Cons.prems(1) Cons.prems(2) Cons.prems(3), of "(j, k) # new"] by simp
  qed
qed

lemma outer_loop_inv:
  "best_inv alo ahi best \<Longrightarrow> \<forall>i \<in> set is. alo \<le> i \<and> i < ahi \<Longrightarrow>
   best_inv alo ahi (outer_loop a b blo bhi is (j2len, best))"
proof (induction "is" arbitrary: j2len best)
  case Nil
  then show ?case by simp
next
  case (Cons i "is")
  obtain new best' where step: "inner_loop i blo bhi j2len (b2j b (a ! i)) ([], best) = (new, best')"
    by (cases "inner_loop i blo bhi j2len (b2j b (a ! i)) ([], best)") auto
  have "best_inv alo ahi best'"
    using inner_loop_inv [of alo ahi best i blo bhi j2len "b2j b (a ! i)" "[]"] Cons.prems step
    by simp
  then show ?case
    using Cons.IH [of best' new] Cons.prems step by simp
qed

lemma extend_left_inv:
  "best_inv alo ahi best \<Longrightarrow> best_inv alo ahi (extend_left a b alo blo best)"
proof (induction a b alo blo best rule: extend_left.induct)
  case (1 a b alo blo besti bestj bestsize)
  show ?case
  proof (cases "alo < besti \<and> blo < bestj \<and> a ! (besti - 1) = b ! (bestj - 1)")
    case True
    have step: "extend_left a b alo blo (besti, bestj, bestsize) =
        extend_left a b alo blo (besti - 1, bestj - 1, bestsize + 1)"
      using True by (subst extend_left.simps) simp
    have "best_inv alo ahi (besti - 1, bestj - 1, bestsize + 1)"
      using "1.prems" True by (auto simp: best_inv_def)
    then show ?thesis
      using "1.IH" [OF True] step by simp
  next
    case False
    have "extend_left a b alo blo (besti, bestj, bestsize) = (besti, bestj, bestsize)"
      using False by (subst extend_left.simps) auto
    then show ?thesis
      using "1.prems" by simp
  qed
qed

lemma extend_right_inv:
  "best_inv alo ahi best \<Longrightarrow> best_inv alo ahi (extend_right a b ahi bhi best)"
proof (induction a b ahi bhi best rule: extend_right.induct)
  case (1 a b ahi bhi besti bestj bestsize)
  show ?case
  proof (cases "besti + bestsize < ahi \<and> bestj + bestsize < bhi \<and>
      a ! (besti + bestsize) = b ! (bestj + bestsize)")
    case True
    have step: "extend_right a b ahi bhi (besti, bestj, bestsize) =
        extend_right a b ahi bhi (besti, bestj, bestsize + 1)"
      using True by (subst extend_right.simps) simp
    have "best_inv alo ahi (besti, bestj, bestsize + 1)"
      using "1.prems" True by (auto simp: best_inv_def)
    then show ?thesis
      using "1.IH" [OF True] step by simp
  next
    case False
    have "extend_right a b ahi bhi (besti, bestj, bestsize) = (besti, bestj, bestsize)"
      using False by (subst extend_right.simps) auto
    then show ?thesis
      using "1.prems" by simp
  qed
qed

lemma find_longest_match_inv:
  "best_inv alo ahi (find_longest_match a b alo ahi blo bhi)"
  unfolding find_longest_match_def
  by (intro extend_right_inv extend_left_inv outer_loop_inv) (auto simp: best_inv_def)

lemma find_longest_match_bounds:
  assumes "(i, j, k) = find_longest_match a b alo ahi blo bhi" and "k \<noteq> 0"
  shows "i < ahi \<and> alo < i + k"
  using find_longest_match_inv [of alo ahi a b blo bhi] assms
  by (auto simp: best_inv_def split: prod.splits)

function matching_blocks ::
  "'a list \<Rightarrow> 'a list \<Rightarrow> nat \<Rightarrow> nat \<Rightarrow> nat \<Rightarrow> nat \<Rightarrow> (nat \<times> nat \<times> nat) list" where
  "matching_blocks a b alo ahi blo bhi =
     (case find_longest_match a b alo ahi blo bhi of (i, j, k) \<Rightarrow>
        if k = 0 then []
        else (i, j, k) #
          (if i + k < ahi \<and> j + k < bhi then matching_blocks a b (i + k) ahi (j + k) bhi else []) @
          (if alo < i \<and> blo < j then matching_blocks a b alo i blo j else []))"
  by pat_completeness auto
termination
proof (relation "measure (\<lambda>(a, b, alo, ahi, blo, bhi). ahi - alo)", goal_cases)
  case 1
  show ?case by simp
next
  case 2
  then show ?case
    using find_longest_match_bounds by (fastforce simp: prod_eq_iff)
next
  case 3
  then show ?case
    using find_longest_match_bounds by (fastforce simp: prod_eq_iff)
qed

declare matching_blocks.simps [simp del]

definition get_matching_blocks :: "'a list \<Rightarrow> 'a list \<Rightarrow> (nat \<times> nat \<times> nat) list" where
  "get_matching_blocks a b = matching_blocks a b 0 (length a) 0 (length b)"

text \<open>
  \<^verbatim>\<open>ratio()\<close> is \<^verbatim>\<open>2.0 * matches / length\<close>, or \<^verbatim>\<open>1.0\<close> when both sequences are
  empty. The source compares this double with a decimal literal; the model compares the
  exact quotient with the exact decimal. The two comparisons agree whenever the lengths
  are below \<open>2^48\<close>: the quotient and the literal are each rounded to the nearest double,
  rounding is monotone, and two distinct fractions with denominators \<open>100\<close> and
  \<open>len(a) + len(b)\<close> differ by more than the spacing of doubles below \<open>1\<close>.
\<close>

definition ratio :: "'a list \<Rightarrow> 'a list \<Rightarrow> rat" where
  "ratio a b =
     (let matches = sum_list (map (\<lambda>(i, j, k). k) (get_matching_blocks a b));
          len = length a + length b
      in if len \<noteq> 0 then 2 * of_nat matches / of_nat len else 1)"

section \<open>Similarity primitives\<close>

text \<open>
  \<^verbatim>\<open>
  def ranges_overlap(a, b, tol=8):
      a1, a2 = a
      b1, b2 = b
      if a1 is None or b1 is None:
          return False
      return not ((a2 + tol) < b1 or (b2 + tol) < a1)
  \<close>
  A location is the pair that \<^verbatim>\<open>parse_loc\<close> returns, typed
  \<^verbatim>\<open>Tuple[Optional[int], Optional[int]]\<close>. Adding the tolerance to an end that is
  \<^verbatim>\<open>None\<close> raises TypeError; \<^verbatim>\<open>or\<close> evaluates its right operand only when the left
  one is false.
\<close>

datatype error = TypeError

type_synonym location = "int option \<times> int option"

fun ranges_overlap :: "location \<Rightarrow> location \<Rightarrow> int \<Rightarrow> error + bool" where
  "ranges_overlap (None, a2) b tol = Inr False"
| "ranges_overlap (Some a1, a2) (None, b2) tol = Inr False"
| "ranges_overlap (Some a1, None) (Some b1, b2) tol = Inl TypeError"
| "ranges_overlap (Some a1, Some a2) (Some b1, b2) tol =
     (if a2 + tol < b1 then Inr False
      else case b2 of None \<Rightarrow> Inl TypeError | Some b2' \<Rightarrow> Inr (\<not> (b2' + tol < a1)))"

text \<open>
  \<^verbatim>\<open>
  def very_close(a, b, ratio=0.92):
      if not a or not b:
          return False
      if min(len(a), len(b)) < 8:
          return a == b
      return difflib.SequenceMatcher(None, a, b).ratio() >= ratio
  \<close>
\<close>

definition very_close :: "str \<Rightarrow> str \<Rightarrow> rat \<Rightarrow> bool" where
  "very_close a b r =
     (if a = [] \<or> b = [] then False
      else if min (length a) (length b) < 8 then a = b
      else r \<le> ratio a b)"

text \<open>
  \<^verbatim>\<open>
  def is_subset(a, b, min_len=12):
      if not a or not b:
          return False
      if min(len(a), len(b)) < min_len:
          return False
      return a in b or b in a
  \<close>
  \<^verbatim>\<open>a in b\<close> on strings is the substring test, \<open>sublist a b\<close>.
\<close>

definition is_subset :: "str \<Rightarrow> str \<Rightarrow> int \<Rightarrow> bool" where
  "is_subset a b min_len =
     (if a = [] \<or> b = [] then False
      else if int (min (length a) (length b)) < min_len then False
      else sublist a b \<or> sublist b a)"

text \<open>
  \<^verbatim>\<open>
  def clause_based_match(a_clauses, b_clauses, min_len=8, ratio=0.90):
      for ca in a_clauses:
          if len(ca) < min_len:
              continue
          for cb in b_clauses:
              if len(cb) < min_len:
                  continue
              if ca in cb or cb in ca:
                  return True
              if difflib.SequenceMatcher(None, ca, cb).ratio() >= ratio:
                  return True
      return False
  \<close>
  \<open>clause_match_one\<close> is the inner loop for one clause \<open>ca\<close>.
\<close>

fun clause_match_one :: "str \<Rightarrow> str list \<Rightarrow> int \<Rightarrow> rat \<Rightarrow> bool" where
  "clause_match_one ca [] min_len r = False"
| "clause_match_one ca (cb # cbs) min_len r =
     (if int (length cb) < min_len then clause_match_one ca cbs min_len r
      else if sublist ca cb \<or> sublist cb ca then True
      else if r \<le> ratio ca cb then True
      else clause_match_one ca cbs min_len r)"

fun clause_based_match :: "str list \<Rightarrow> str list \<Rightarrow> int \<Rightarrow> rat \<Rightarrow> bool" where
  "clause_based_match [] b_clauses min_len r = False"
| "clause_based_match (ca # cas) b_clauses min_len r =
     (if int (length ca) < min_len then clause_based_match cas b_clauses min_len r
      else if clause_match_one ca b_clauses min_len r then True
      else clause_based_match cas b_clauses min_len r)"

section \<open>Entries and the duplicate classifier\<close>

text \<open>
  The dictionary that \<^verbatim>\<open>parse_entry\<close> builds, one field per key. \<open>kind\<close> is the key
  \<^verbatim>\<open>"type"\<close>, whose value \<^verbatim>\<open>parse_type\<close> takes from the four strings
  \<^verbatim>\<open>"highlight"\<close>, \<^verbatim>\<open>"note"\<close>, \<^verbatim>\<open>"bookmark"\<close>, \<^verbatim>\<open>"unknown"\<close>; \<open>norm_text\<close> is the
  key \<^verbatim>\<open>"norm"\<close> and \<open>hash_md5\<close> the key \<^verbatim>\<open>"hash"\<close>.
\<close>

datatype kind = Highlight | Note | Bookmark | Unknown

record entry =
  idx :: int
  title :: str
  meta :: str
  kind :: kind
  loc :: location
  timestamp_raw :: "str option"
  timestamp :: "int option"
  body :: str
  norm_text :: str
  hash_md5 :: str
  clauses :: "str list"

text \<open>
  The local \<^verbatim>\<open>time_close\<close> of \<^verbatim>\<open>is_duplicate\<close>:
  \<^verbatim>\<open>ta is not None and tb is not None and abs(ta - tb) <= time_tol\<close>.
\<close>

definition time_close :: "int option \<Rightarrow> int option \<Rightarrow> int \<Rightarrow> bool" where
  "time_close ta tb time_tol =
     (case ta of None \<Rightarrow> False
      | Some x \<Rightarrow> (case tb of None \<Rightarrow> False | Some y \<Rightarrow> \<bar>x - y\<bar> \<le> time_tol))"

text \<open>
  \<^verbatim>\<open>is_duplicate(cur, kept, time_tol=300, clause_min_len=12)\<close>, branch by branch; the
  \<^verbatim>\<open>debug\<close> flag only prints.
\<close>

definition is_duplicate :: "entry \<Rightarrow> entry \<Rightarrow> int \<Rightarrow> int \<Rightarrow> error + bool" where
  "is_duplicate cur kept time_tol clause_min_len =
     (let a = norm_text cur; b = norm_text kept in
      if a = [] \<or> b = [] then Inr False
      else if a = b then Inr True
      else case ranges_overlap (loc cur) (loc kept) 8 of
        Inl e \<Rightarrow> Inl e
      | Inr overlap \<Rightarrow>
          let tc = time_close (timestamp cur) (timestamp kept) time_tol;
              clause_match = clause_based_match (clauses cur) (clauses kept) clause_min_len
                               (if tc then 88 / 100 else 92 / 100)
          in if overlap then
               (if clause_match then Inr True
                else if is_subset a b 12 then Inr True
                else if very_close a b (if tc then 90 / 100 else 92 / 100) then Inr True
                else Inr False)
             else
               (if clause_match then Inr True
                else if is_subset a b (if tc then 10 else 16) then Inr True
                else if very_close a b (if \<not> tc then 95 / 100 else 92 / 100) then Inr True
                else Inr False))"

text \<open>
  The locations that \<^verbatim>\<open>parse_loc\<close> builds have both ends or neither:
  \<^verbatim>\<open>(int(a), int(b))\<close>, \<^verbatim>\<open>(v, v)\<close> or \<^verbatim>\<open>(None, None)\<close>.
\<close>

definition well_formed_loc :: "location \<Rightarrow> bool" where
  "well_formed_loc l \<longleftrightarrow> (fst l = None) = (snd l = None)"

section \<open>Grouping, retention and ordering\<close>

text \<open>
  \<^verbatim>\<open>by_book[e["title"]].append(e)\<close> on a \<^verbatim>\<open>defaultdict(list)\<close>: the dictionary keeps
  its keys in the order of their first insertion, so it is an association list with
  distinct keys in that order.
\<close>

fun by_book_append :: "(str \<times> entry list) list \<Rightarrow> entry \<Rightarrow> (str \<times> entry list) list" where
  "by_book_append [] e = [(title e, [e])]"
| "by_book_append ((t, es) # rest) e =
     (if t = title e then (t, es @ [e]) # rest else (t, es) # by_book_append rest e)"

definition by_book :: "entry list \<Rightarrow> (str \<times> entry list) list" where
  "by_book entries = foldl by_book_append [] entries"

text \<open>
  \<^verbatim>\<open>any(is_duplicate(cur, k, ...) for k in kept_h)\<close>: the generator stops at the first
  true answer, and an exception of \<^verbatim>\<open>is_duplicate\<close> leaves it.
\<close>

fun any_is_duplicate :: "entry \<Rightarrow> entry list \<Rightarrow> int \<Rightarrow> int \<Rightarrow> error + bool" where
  "any_is_duplicate cur [] time_tol clause_min_len = Inr False"
| "any_is_duplicate cur (k # ks) time_tol clause_min_len =
     (case is_duplicate cur k time_tol clause_min_len of
        Inl e \<Rightarrow> Inl e
      | Inr dup \<Rightarrow> if dup then Inr True else any_is_duplicate cur ks time_tol clause_min_len)"

text \<open>
  One iteration of the loop \<^verbatim>\<open>for cur in reversed(es)\<close> on the three lists
  \<^verbatim>\<open>kept_h, kept_n, kept_b\<close>:
  \<^verbatim>\<open>
  if not cur["body"] or not cur["body"].strip(): continue
  t = cur["type"]
  if t == "highlight":
      dup = any(is_duplicate(cur, k, ...) for k in kept_h)
      if not dup: kept_h.append(cur)
  elif t == "note":
      if not any(cur["norm"] == k["norm"] for k in kept_n): kept_n.append(cur)
  elif t == "bookmark":
      if not any(cur["meta"] == k["meta"] for k in kept_b): kept_b.append(cur)
  else:
      dup = any(is_duplicate(cur, k, ...) for k in kept_h)
      if not dup: kept_h.append(cur)
  \<close>
\<close>

type_synonym kept = "entry list \<times> entry list \<times> entry list"

fun keep_step :: "int \<Rightarrow> int \<Rightarrow> kept \<Rightarrow> entry \<Rightarrow> error + kept" where
  "keep_step time_tol clause_min_len (kept_h, kept_n, kept_b) cur =
     (if body cur = [] \<or> strip (body cur) = [] then Inr (kept_h, kept_n, kept_b)
      else case kind cur of
        Highlight \<Rightarrow>
          (case any_is_duplicate cur kept_h time_tol clause_min_len of
             Inl e \<Rightarrow> Inl e
           | Inr dup \<Rightarrow> Inr (if dup then kept_h else kept_h @ [cur], kept_n, kept_b))
      | Note \<Rightarrow>
          Inr (kept_h,
               if list_ex (\<lambda>k. norm_text cur = norm_text k) kept_n then kept_n
               else kept_n @ [cur],
               kept_b)
      | Bookmark \<Rightarrow>
          Inr (kept_h, kept_n,
               if list_ex (\<lambda>k. meta cur = meta k) kept_b then kept_b else kept_b @ [cur])
      | Unknown \<Rightarrow>
          (case any_is_duplicate cur kept_h time_tol clause_min_len of
             Inl e \<Rightarrow> Inl e
           | Inr dup \<Rightarrow> Inr (if dup then kept_h else kept_h @ [cur], kept_n, kept_b)))"

fun keep_loop :: "int \<Rightarrow> int \<Rightarrow> kept \<Rightarrow> entry list \<Rightarrow> error + kept" where
  "keep_loop time_tol clause_min_len st [] = Inr st"
| "keep_loop time_tol clause_min_len st (cur # rest) =
     (case keep_step time_tol clause_min_len st cur of
        Inl e \<Rightarrow> Inl e
      | Inr st' \<Rightarrow> keep_loop time_tol clause_min_len st' rest)"

text \<open>
  The local \<^verbatim>\<open>sort_key\<close>:
  \<^verbatim>\<open>
  s, e2 = x["loc"]
  if s is None:
      ts = x.get("timestamp") or 0
      return (10**12, -ts, x["idx"])
  return (s, x["idx"])
  \<close>
  The key is a tuple of integers of length two or three; Python compares tuples
  lexicographically, a proper prefix being smaller, which is the order of
  \<open>HOL-Library.List_Lexorder\<close> on integer lists. \<^verbatim>\<open>list.sort\<close> is stable, as is
  \<^const>\<open>sort_key\<close>.
\<close>

definition entry_sort_key :: "entry \<Rightarrow> int list" where
  "entry_sort_key x =
     (case fst (loc x) of
        None \<Rightarrow> [10 ^ 12, - (case timestamp x of None \<Rightarrow> 0 | Some ts \<Rightarrow> ts), idx x]
      | Some s \<Rightarrow> [s, idx x])"

text \<open>
  The body of the loop \<^verbatim>\<open>for book, es in by_book.items()\<close>: retention over the
  reversed list, then \<^verbatim>\<open>kept_h.sort(key=sort_key)\<close> and the same for the two other
  lists, and \<^verbatim>\<open>result[book] = kept_h + kept_n + kept_b\<close>.
\<close>

definition dedup_book :: "entry list \<Rightarrow> int \<Rightarrow> int \<Rightarrow> error + entry list" where
  "dedup_book es time_tol clause_min_len =
     (case keep_loop time_tol clause_min_len ([], [], []) (rev es) of
        Inl e \<Rightarrow> Inl e
      | Inr (kept_h, kept_n, kept_b) \<Rightarrow>
          Inr (sort_key entry_sort_key kept_h @ sort_key entry_sort_key kept_n @
               sort_key entry_sort_key kept_b))"

fun dedup_books ::
  "(str \<times> entry list) list \<Rightarrow> int \<Rightarrow> int \<Rightarrow> error + (str \<times> entry list) list" where
  "dedup_books [] time_tol clause_min_len = Inr []"
| "dedup_books ((book, es) # rest) time_tol clause_min_len =
     (case dedup_book es time_tol clause_min_len of
        Inl e \<Rightarrow> Inl e
      | Inr items \<Rightarrow>
          (case dedup_books rest time_tol clause_min_len of
             Inl e \<Rightarrow> Inl e
           | Inr result \<Rightarrow> Inr ((book, items) # result)))"

text \<open>
  \<^verbatim>\<open>dedup_by_book(entries, time_tol=300, clause_min_len=12)\<close>; the result dictionary
  is the association list of its items in key order.
\<close>

definition dedup_by_book ::
  "entry list \<Rightarrow> int \<Rightarrow> int \<Rightarrow> error + (str \<times> entry list) list" where
  "dedup_by_book entries time_tol clause_min_len =
     dedup_books (by_book entries) time_tol clause_min_len"

text \<open>\<^verbatim>\<open>sep.join(parts)\<close>, the inverse of \<^verbatim>\<open>str.split\<close>.\<close>

fun join :: "'a list \<Rightarrow> 'a list list \<Rightarrow> 'a list" where
  "join sep [] = []"
| "join sep [p] = p"
| "join sep (p # q # ps) = p @ sep @ join sep (q # ps)"

text \<open>
  The value that \<^verbatim>\<open>is_duplicate\<close> returns for two different non-empty normalized bodies,
  as a function of the two flags \<^verbatim>\<open>overlap\<close> and \<^verbatim>\<open>time_close\<close>.
\<close>

definition decision ::
  "str \<Rightarrow> str \<Rightarrow> str list \<Rightarrow> str list \<Rightarrow> int \<Rightarrow> bool \<Rightarrow> bool \<Rightarrow> bool" where
  "decision a b ca cb clause_min_len overlap tc =
     (clause_based_match ca cb clause_min_len (if tc then 88 / 100 else 92 / 100) \<or>
      is_subset a b (if overlap then 12 else if tc then 10 else 16) \<or>
      very_close a b (if overlap then (if tc then 90 / 100 else 92 / 100)
                      else (if tc then 92 / 100 else 95 / 100)))"

text \<open>
  The three thresholds that \<^verbatim>\<open>is_duplicate\<close> passes on, as functions of its flags
  \<^verbatim>\<open>overlap\<close> and \<^verbatim>\<open>time_close\<close>: the clause ratio
  \<^verbatim>\<open>0.88 if time_close else 0.92\<close>; the containment floor, \<^verbatim>\<open>12\<close> under overlap and
  \<^verbatim>\<open>10 if time_close else 16\<close> otherwise; the near-equality ratio,
  \<^verbatim>\<open>0.90 if time_close else 0.92\<close> under overlap and
  \<^verbatim>\<open>0.95 if not time_close else 0.92\<close> otherwise.
\<close>

definition clause_ratio :: "bool \<Rightarrow> rat" where
  "clause_ratio tc = (if tc then 88 / 100 else 92 / 100)"

definition subset_floor :: "bool \<Rightarrow> bool \<Rightarrow> int" where
  "subset_floor overlap tc = (if overlap then 12 else if tc then 10 else 16)"

definition close_ratio :: "bool \<Rightarrow> bool \<Rightarrow> rat" where
  "close_ratio overlap tc =
     (if overlap then (if tc then 90 / 100 else 92 / 100)
      else (if \<not> tc then 95 / 100 else 92 / 100))"

text \<open>
  Notions used to state properties of the retention loop: an entry is \<open>blank\<close> when
  the loop skips it, and \<open>highlight_like\<close> when it goes to the list \<^verbatim>\<open>kept_h\<close>, that
  is when its kind is neither \<^verbatim>\<open>note\<close> nor \<^verbatim>\<open>bookmark\<close>.
\<close>

definition blank :: "entry \<Rightarrow> bool" where
  "blank e \<longleftrightarrow> body e = [] \<or> strip (body e) = []"

definition highlight_like :: "entry \<Rightarrow> bool" where
  "highlight_like e \<longleftrightarrow> kind e = Highlight \<or> kind e = Unknown"

text \<open>
  What holds of the three lists throughout the loop: each holds entries of its own kinds
  that are not blank; every entry of \<^verbatim>\<open>kept_h\<close> was classified as no duplicate of each
  entry before it in the list; the notes have distinct normalized bodies and the
  bookmarks distinct metadata lines.
\<close>

definition kept_inv :: "int \<Rightarrow> int \<Rightarrow> kept \<Rightarrow> bool" where
  "kept_inv time_tol clause_min_len st =
     (case st of (kept_h, kept_n, kept_b) \<Rightarrow>
        (\<forall>e\<in>set kept_h. highlight_like e \<and> \<not> blank e) \<and>
        (\<forall>e\<in>set kept_n. kind e = Note \<and> \<not> blank e) \<and>
        (\<forall>e\<in>set kept_b. kind e = Bookmark \<and> \<not> blank e) \<and>
        sorted_wrt (\<lambda>k x. is_duplicate x k time_tol clause_min_len = Inr False) kept_h \<and>
        distinct (map norm_text kept_n) \<and> distinct (map meta kept_b))"



section \<open>Sample entries\<close>

text \<open>
  \<open>sample i k l ts text\<close> is the entry that \<^verbatim>\<open>parse_entry\<close> builds at index \<open>i\<close> for
  a block of the book \<^verbatim>\<open>Book\<close> whose body \<open>text\<close> is one clause already in normal form
  (so \<^verbatim>\<open>norm\<close> is the body and \<^verbatim>\<open>clauses\<close> is \<^verbatim>\<open>[norm]\<close>), with kind \<open>k\<close>, location \<open>l\<close>
  and epoch timestamp \<open>ts\<close>. The fields \<^verbatim>\<open>meta\<close>, \<^verbatim>\<open>timestamp_raw\<close> and \<^verbatim>\<open>hash\<close> are not
  read by the classifier for highlights and are left empty.
\<close>

definition sample :: "int \<Rightarrow> kind \<Rightarrow> location \<Rightarrow> int option \<Rightarrow> string \<Rightarrow> entry" where
  "sample i k l ts text =
     \<lparr>idx = i, title = str ''Book'', meta = [], kind = k, loc = l, timestamp_raw = None,
      timestamp = ts, body = str text, norm_text = str text, hash_md5 = [],
      clauses = [str text]\<rparr>"

section \<open>Location overlap\<close>

text \<open>
  Claim C3, as the specification words it: both ranges are widened by 8 at both ends
  and the widened ranges must intersect, which would accept a gap of 16. The code adds
  the tolerance once per comparison: for the ranges 100-110 and 125-130 the widened
  ranges 92-118 and 117-138 share 117 and 118, and the answer is false.
\<close>

theorem ranges_overlap_both_ends_counterexample:
  "ranges_overlap (Some 100, Some 110) (Some 125, Some 130) 8 = Inr False \<and>
   {100 - 8 .. 110 + 8} \<inter> {125 - 8 .. 130 + (8::int)} \<noteq> {}"
  by simp

text \<open>
  Claim C3, amended: for two ranges with start at most end, the answer is true exactly
  when one range widened by 8 at both ends meets the other range as it is, that is
  when the gap between them is at most 8; the answer is false as soon as either
  location start is absent.
\<close>

theorem ranges_overlap_one_widened:
  assumes "a1 \<le> a2" and "b1 \<le> b2"
  shows "ranges_overlap (Some a1, Some a2) (Some b1, Some b2) 8 =
           Inr ({a1 - 8 .. a2 + 8} \<inter> {b1 .. b2} \<noteq> {}) \<and>
         ranges_overlap (None, x) b 8 = Inr False \<and>
         ranges_overlap a (None, y) 8 = Inr False"
proof -
  have "ranges_overlap a (None, y) 8 = Inr False"
    by (cases a; cases "fst a"; simp)
  moreover have "ranges_overlap (Some a1, Some a2) (Some b1, Some b2) 8 =
           Inr ({a1 - 8 .. a2 + 8} \<inter> {b1 .. b2} \<noteq> {})"
    using assms by auto
  ultimately show ?thesis by simp
qed

theorem ranges_overlap_one_widened_witness:
  "(100::int) \<le> 110 \<and> (115::int) \<le> 120 \<and>
   ranges_overlap (Some 100, Some 110) (Some 115, Some 120) 8 = Inr True"
  using ranges_overlap_one_widened [of 100 110 115 120] by simp

section \<open>The classifier\<close>

lemma is_duplicate_decision:
  assumes "ranges_overlap (loc cur) (loc kept) 8 = Inr ov"
  shows "is_duplicate cur kept tt cm =
     Inr (norm_text cur \<noteq> [] \<and> norm_text kept \<noteq> [] \<and>
          (norm_text cur = norm_text kept \<or>
           decision (norm_text cur) (norm_text kept) (clauses cur) (clauses kept) cm ov
             (time_close (timestamp cur) (timestamp kept) tt)))"
  using assms unfolding is_duplicate_def decision_def Let_def by simp

lemma clause_match_one_mono:
  "r' \<le> r \<Longrightarrow> clause_match_one ca cbs m r \<Longrightarrow> clause_match_one ca cbs m r'"
  by (induction cbs) (auto split: if_splits)

lemma clause_based_match_mono:
  "r' \<le> r \<Longrightarrow> clause_based_match cas cbs m r \<Longrightarrow> clause_based_match cas cbs m r'"
  by (induction cas) (auto split: if_splits intro: clause_match_one_mono)

lemma very_close_mono: "r' \<le> r \<Longrightarrow> very_close a b r \<Longrightarrow> very_close a b r'"
  unfolding very_close_def by (auto split: if_splits)

lemma is_subset_mono: "m' \<le> m \<Longrightarrow> is_subset a b m \<Longrightarrow> is_subset a b m'"
  unfolding is_subset_def by (auto split: if_splits)

lemma is_subset_len:
  "is_subset a b m \<Longrightarrow> m' \<le> int (min (length a) (length b)) \<Longrightarrow> is_subset a b m'"
  unfolding is_subset_def by (auto split: if_splits)

lemma decision_mono:
  assumes "ov \<longrightarrow> ov'" and "tc \<longrightarrow> tc'"
    and "ov \<or> \<not> ov' \<or> \<not> tc \<or> 12 \<le> min (length a) (length b)"
    and "decision a b ca cb cm ov tc"
  shows "decision a b ca cb cm ov' tc'"
proof -
  let ?r1 = "\<lambda>tc. if tc then 88 / 100 else (92 / 100 :: rat)"
  let ?m = "\<lambda>ov tc. if ov then 12 else if tc then 10 else (16 :: int)"
  let ?r2 = "\<lambda>ov tc. if ov then (if tc then 90 / 100 else 92 / 100)
                      else (if tc then 92 / 100 else (95 / 100 :: rat))"
  have r1: "?r1 tc' \<le> ?r1 tc" using assms(2) by simp
  have r2: "?r2 ov' tc' \<le> ?r2 ov tc" using assms(1,2) by simp
  have m: "?m ov' tc' \<le> ?m ov tc \<or> ?m ov' tc' \<le> int (min (length a) (length b))"
    using assms(1,2,3) by (cases ov; cases ov'; cases tc; cases tc'; simp)
  from assms(4) consider
      "clause_based_match ca cb cm (?r1 tc)" | "is_subset a b (?m ov tc)"
    | "very_close a b (?r2 ov tc)"
    unfolding decision_def by blast
  then show ?thesis
  proof cases
    case 1
    then have "clause_based_match ca cb cm (?r1 tc')"
      using clause_based_match_mono [OF r1] by blast
    then show ?thesis unfolding decision_def by blast
  next
    case 2
    then have "is_subset a b (?m ov' tc')"
      using m is_subset_mono is_subset_len by blast
    then show ?thesis unfolding decision_def by blast
  next
    case 3
    then have "very_close a b (?r2 ov' tc')"
      using very_close_mono [OF r2] by blast
    then show ?thesis unfolding decision_def by blast
  qed
qed

lemma decision_after:
  assumes "ov \<longrightarrow> ov'" and "tc \<longrightarrow> tc'" and "decision a b ca cb cm ov tc"
  shows "decision a b ca cb cm ov' tc' \<longleftrightarrow>
           ov \<or> \<not> ov' \<or> \<not> tc \<or> \<not> is_subset a b 10 \<or> is_subset a b 12 \<or>
           clause_based_match ca cb cm (88 / 100) \<or> very_close a b (90 / 100)"
proof (cases "\<not> ov \<and> ov' \<and> tc")
  case True
  then have "tc'" using assms(2) by simp
  then have "decision a b ca cb cm ov' tc' \<longleftrightarrow>
      clause_based_match ca cb cm (88 / 100) \<or> is_subset a b 12 \<or> very_close a b (90 / 100)"
    using True by (simp add: decision_def)
  moreover have "clause_based_match ca cb cm (88 / 100) \<or> is_subset a b 10 \<or>
      very_close a b (92 / 100)"
    using assms(3) True by (simp add: decision_def)
  moreover have "very_close a b (92 / 100) \<Longrightarrow> very_close a b (90 / 100)"
    by (rule very_close_mono [of "90 / 100" "92 / 100"]) simp_all
  ultimately show ?thesis using True by blast
next
  case False
  have "ov \<or> \<not> ov' \<or> \<not> tc \<or> 12 \<le> min (length a) (length b)" using False by blast
  from decision_mono [OF assms(1,2) this assms(3)] show ?thesis using False by blast
qed

text \<open>
  Claim C1, as the specification words it: with the text held fixed, making the
  locations overlap never turns a duplicate into a non-duplicate. The containment test
  asks for 10 characters when the locations are apart and the timestamps close, but for
  12 when the locations overlap. The ten-character body \<^verbatim>\<open>abcdefghij\<close> and
  \<^verbatim>\<open>abcdefghijklm\<close>, captured 100 seconds apart, are duplicates at locations 100-110
  and 200-210 and are not at locations 100-110 and 105-115.
\<close>

theorem overlap_loses_duplicate_counterexample:
  "is_duplicate (sample 1 Highlight (Some 100, Some 110) (Some 1000) ''abcdefghij'')
                (sample 0 Highlight (Some 200, Some 210) (Some 1100) ''abcdefghijklm'') 300 12
     = Inr True \<and>
   is_duplicate (sample 1 Highlight (Some 100, Some 110) (Some 1000) ''abcdefghij'')
                (sample 0 Highlight (Some 105, Some 115) (Some 1100) ''abcdefghijklm'') 300 12
     = Inr False \<and>
   ranges_overlap (Some 100, Some 110) (Some 200, Some 210) 8 = Inr False \<and>
   ranges_overlap (Some 100, Some 110) (Some 105, Some 115) 8 = Inr True"
  by code_simp

text \<open>
  Claim C1, amended: with the normalized bodies and clauses held fixed, after a change
  that keeps or adds location overlap and keeps or adds timestamp closeness a duplicate
  is still a duplicate, with one exception: the timestamps were already close, the
  overlap is new, and the pair was a duplicate by containment alone, the shorter body
  having 10 or 11 characters (the bodies differ, no clause pair matches at 0.88 and the
  bodies are not near-equal at 0.90). In that case, and only then, the pair is no
  longer a duplicate.
\<close>

theorem is_duplicate_monotone:
  assumes "norm_text cur' = norm_text cur" and "norm_text kept' = norm_text kept"
    and "clauses cur' = clauses cur" and "clauses kept' = clauses kept"
    and "ranges_overlap (loc cur) (loc kept) 8 = Inr ov"
    and "ranges_overlap (loc cur') (loc kept') 8 = Inr ov'"
    and "ov \<longrightarrow> ov'"
    and "time_close (timestamp cur) (timestamp kept) tt \<longrightarrow>
         time_close (timestamp cur') (timestamp kept') tt"
    and "is_duplicate cur kept tt cm = Inr True"
  shows "is_duplicate cur' kept' tt cm =
     Inr (ov \<or> \<not> ov' \<or> \<not> time_close (timestamp cur) (timestamp kept) tt \<or>
          norm_text cur = norm_text kept \<or>
          \<not> is_subset (norm_text cur) (norm_text kept) 10 \<or>
          is_subset (norm_text cur) (norm_text kept) 12 \<or>
          clause_based_match (clauses cur) (clauses kept) cm (88 / 100) \<or>
          very_close (norm_text cur) (norm_text kept) (90 / 100))"
proof (cases "norm_text cur = norm_text kept")
  case True
  then show ?thesis
    using assms(9)
    unfolding is_duplicate_decision [OF assms(5)] is_duplicate_decision [OF assms(6)] assms(1-4)
    by simp
next
  case False
  then have ne: "norm_text cur \<noteq> []" "norm_text kept \<noteq> []"
    and d: "decision (norm_text cur) (norm_text kept) (clauses cur) (clauses kept) cm ov
              (time_close (timestamp cur) (timestamp kept) tt)"
    using assms(9) unfolding is_duplicate_decision [OF assms(5)] by simp_all
  show ?thesis
    unfolding is_duplicate_decision [OF assms(6)] assms(1-4)
    using decision_after [OF assms(7,8) d] ne False by simp
qed

theorem is_duplicate_monotone_witness:
  "ranges_overlap (loc (sample 1 Highlight (Some 100, Some 110) (Some 1000) ''The quick brown fox''))
      (loc (sample 0 Highlight (Some 200, Some 210) None ''The quick brown fox jumps'')) 8
     = Inr False \<and>
   ranges_overlap (loc (sample 1 Highlight (Some 100, Some 110) (Some 1000) ''The quick brown fox''))
      (loc (sample 0 Highlight (Some 105, Some 115) (Some 1100) ''The quick brown fox jumps'')) 8
     = Inr True \<and>
   is_duplicate (sample 1 Highlight (Some 100, Some 110) (Some 1000) ''The quick brown fox'')
       (sample 0 Highlight (Some 200, Some 210) None ''The quick brown fox jumps'') 300 12
     = Inr True \<and>
   is_duplicate (sample 1 Highlight (Some 100, Some 110) (Some 1000) ''The quick brown fox'')
       (sample 0 Highlight (Some 105, Some 115) (Some 1100) ''The quick brown fox jumps'') 300 12
     = Inr True"
  using is_duplicate_monotone
     [of "sample 1 Highlight (Some 100, Some 110) (Some 1000) ''The quick brown fox''"
      "sample 1 Highlight (Some 100, Some 110) (Some 1000) ''The quick brown fox''"
      "sample 0 Highlight (Some 105, Some 115) (Some 1100) ''The quick brown fox jumps''"
      "sample 0 Highlight (Some 200, Some 210) None ''The quick brown fox jumps''"
      False True 300 12]
  by (simp add: sample_def time_close_def str_def is_duplicate_def is_subset_def)

text \<open>
  Claim C2, as the specification words it: under location overlap the near-equality
  threshold is 0.90 whatever the timestamps. The code takes 0.90 only when the
  timestamps are close and 0.92 otherwise: \<^verbatim>\<open>abcdefghij\<close> and \<^verbatim>\<open>abcdefghiX\<close> have
  similarity 0.9, overlap at 100-110 and carry no timestamp, and are not duplicates.
\<close>

theorem overlap_threshold_090_counterexample:
  "is_duplicate (sample 1 Highlight (Some 100, Some 110) None ''abcdefghij'')
                (sample 0 Highlight (Some 100, Some 110) None ''abcdefghiX'') 300 12 = Inr False \<and>
   ranges_overlap (Some 100, Some 110) (Some 100, Some 110) 8 = Inr True \<and>
   very_close (str ''abcdefghij'') (str ''abcdefghiX'') (90 / 100)"
  by code_simp

text \<open>
  Claim C2, amended: for two different non-empty normalized bodies whose locations
  overlap, the pair is a duplicate exactly when a clause pair matches (threshold 0.88
  when the timestamps are close, else 0.92), or one body contains the other with the
  shorter at least 12 characters long, or the bodies are near-equal at threshold 0.90
  when the timestamps are close and 0.92 otherwise.
\<close>

theorem is_duplicate_overlap_branch:
  assumes "norm_text cur \<noteq> []" and "norm_text kept \<noteq> []"
    and "norm_text cur \<noteq> norm_text kept"
    and "ranges_overlap (loc cur) (loc kept) 8 = Inr True"
  shows "is_duplicate cur kept tt cm =
     Inr (clause_based_match (clauses cur) (clauses kept) cm
            (if time_close (timestamp cur) (timestamp kept) tt then 88 / 100 else 92 / 100) \<or>
          is_subset (norm_text cur) (norm_text kept) 12 \<or>
          very_close (norm_text cur) (norm_text kept)
            (if time_close (timestamp cur) (timestamp kept) tt then 90 / 100 else 92 / 100))"
  using assms unfolding is_duplicate_def Let_def by simp

theorem is_duplicate_overlap_branch_witness:
  "norm_text (sample 1 Highlight (Some 100, Some 110) None ''The quick brown fox'') \<noteq> [] \<and>
   ranges_overlap (loc (sample 1 Highlight (Some 100, Some 110) None ''The quick brown fox''))
      (loc (sample 0 Highlight (Some 102, Some 115) None ''The quick brown fox jumps'')) 8
     = Inr True \<and>
   is_subset (str ''The quick brown fox'') (str ''The quick brown fox jumps'') 12 \<and>
   is_duplicate (sample 1 Highlight (Some 100, Some 110) None ''The quick brown fox'')
       (sample 0 Highlight (Some 102, Some 115) None ''The quick brown fox jumps'') 300 12
     = Inr True"
  using is_duplicate_overlap_branch
     [of "sample 1 Highlight (Some 100, Some 110) None ''The quick brown fox''"
      "sample 0 Highlight (Some 102, Some 115) None ''The quick brown fox jumps''" 300 12]
  by (simp add: sample_def time_close_def str_def is_subset_def)

lemma ranges_overlap_wf:
  assumes "well_formed_loc a" and "well_formed_loc b"
  shows "\<exists>ov. ranges_overlap a b tol = Inr ov \<and> ranges_overlap b a tol = Inr ov"
proof (cases a; cases b)
  fix a1 a2 b1 b2
  assume "a = (a1, a2)" and "b = (b1, b2)"
  then show ?thesis
    using assms by (cases a1; cases a2; cases b1; cases b2) (auto simp: well_formed_loc_def)
qed

lemma time_close_sym: "time_close x y t = time_close y x t"
  by (auto simp: time_close_def split: option.splits)

lemma is_subset_sym: "is_subset a b m = is_subset b a m"
  by (auto simp: is_subset_def min.commute)

lemma clause_match_one_iff:
  "clause_match_one ca cbs m r \<longleftrightarrow>
     (\<exists>cb\<in>set cbs. m \<le> int (length cb) \<and> (sublist ca cb \<or> sublist cb ca \<or> r \<le> ratio ca cb))"
  by (induction cbs) auto

lemma clause_based_match_iff:
  "clause_based_match cas cbs m r \<longleftrightarrow>
     (\<exists>ca\<in>set cas. \<exists>cb\<in>set cbs. m \<le> int (length ca) \<and> m \<le> int (length cb) \<and>
        (sublist ca cb \<or> sublist cb ca \<or> r \<le> ratio ca cb))"
  by (induction cas) (auto simp: clause_match_one_iff)

lemma clause_based_match_agree:
  assumes "\<forall>ca\<in>set cas. \<forall>cb\<in>set cbs. m \<le> int (length ca) \<longrightarrow> m \<le> int (length cb) \<longrightarrow>
             \<not> sublist ca cb \<longrightarrow> \<not> sublist cb ca \<longrightarrow> (r \<le> ratio ca cb) = (r \<le> ratio cb ca)"
  shows "clause_based_match cas cbs m r = clause_based_match cbs cas m r"
proof -
  have "clause_based_match cas cbs m r \<longleftrightarrow>
     (\<exists>ca\<in>set cas. \<exists>cb\<in>set cbs. m \<le> int (length ca) \<and> m \<le> int (length cb) \<and>
        (sublist ca cb \<or> sublist cb ca \<or> r \<le> ratio cb ca))"
    unfolding clause_based_match_iff using assms by blast
  also have "\<dots> \<longleftrightarrow> clause_based_match cbs cas m r"
    unfolding clause_based_match_iff by blast
  finally show ?thesis .
qed

lemma very_close_agree:
  assumes "8 \<le> min (length a) (length b) \<longrightarrow> (r \<le> ratio a b) = (r \<le> ratio b a)"
  shows "very_close a b r = very_close b a r"
  using assms by (auto simp: very_close_def min.commute)

lemma decision_thresholds:
  "decision a b ca cb cm ov tc \<longleftrightarrow>
     clause_based_match ca cb cm (clause_ratio tc) \<or> is_subset a b (subset_floor ov tc) \<or>
     very_close a b (close_ratio ov tc)"
  by (simp add: decision_def clause_ratio_def subset_floor_def close_ratio_def)

text \<open>
  Claim C7, as the specification words it: \<^verbatim>\<open>is_duplicate(x, y)\<close> and
  \<^verbatim>\<open>is_duplicate(y, x)\<close> always agree. The similarity ratio of the sequence matcher
  depends on the order of its arguments: from \<^verbatim>\<open>dietabcfghjklmnopqrsuvwxy\<close> to
  \<^verbatim>\<open>tideabcfghjklmnopqrsuvwxy\<close> it is 0.92, the other way round 0.88, so that with the
  clause threshold 0.92 the pair is a duplicate in one order only.
\<close>

theorem is_duplicate_order_counterexample:
  "is_duplicate (sample 1 Highlight (Some 100, Some 110) None ''dietabcfghjklmnopqrsuvwxy'')
                (sample 0 Highlight (Some 100, Some 110) None ''tideabcfghjklmnopqrsuvwxy'') 300 12
     = Inr True \<and>
   is_duplicate (sample 0 Highlight (Some 100, Some 110) None ''tideabcfghjklmnopqrsuvwxy'')
                (sample 1 Highlight (Some 100, Some 110) None ''dietabcfghjklmnopqrsuvwxy'') 300 12
     = Inr False"
  by code_simp

text \<open>
  Claim C7, amended: \<^verbatim>\<open>is_duplicate(x, y)\<close> and \<^verbatim>\<open>is_duplicate(y, x)\<close> agree for all
  parameter values whenever both locations have both ends or neither and each
  comparison of a similarity ratio with its threshold comes out the same in both
  argument orders: at the clause threshold, for every pair of clauses of at least the
  minimum length of which neither contains the other; and at the near-equality
  threshold, for the two normalized bodies when both have at least 8 characters, no
  clause pair matches and the containment test fails. The ratios themselves may differ.
\<close>

theorem is_duplicate_commutes:
  assumes "well_formed_loc (loc x)" and "well_formed_loc (loc y)"
    and "ranges_overlap (loc x) (loc y) 8 = Inr ov"
    and "\<forall>ca\<in>set (clauses x). \<forall>cb\<in>set (clauses y).
           cm \<le> int (length ca) \<longrightarrow> cm \<le> int (length cb) \<longrightarrow>
           \<not> sublist ca cb \<longrightarrow> \<not> sublist cb ca \<longrightarrow>
           (clause_ratio (time_close (timestamp x) (timestamp y) tt) \<le> ratio ca cb) =
           (clause_ratio (time_close (timestamp x) (timestamp y) tt) \<le> ratio cb ca)"
    and "8 \<le> min (length (norm_text x)) (length (norm_text y)) \<longrightarrow>
         \<not> clause_based_match (clauses x) (clauses y) cm
             (clause_ratio (time_close (timestamp x) (timestamp y) tt)) \<longrightarrow>
         \<not> is_subset (norm_text x) (norm_text y)
             (subset_floor ov (time_close (timestamp x) (timestamp y) tt)) \<longrightarrow>
         (close_ratio ov (time_close (timestamp x) (timestamp y) tt)
            \<le> ratio (norm_text x) (norm_text y)) =
         (close_ratio ov (time_close (timestamp x) (timestamp y) tt)
            \<le> ratio (norm_text y) (norm_text x))"
  shows "is_duplicate x y tt cm = is_duplicate y x tt cm"
proof -
  let ?tc = "time_close (timestamp x) (timestamp y) tt"
  let ?a = "norm_text x" and ?b = "norm_text y"
  have ov': "ranges_overlap (loc y) (loc x) 8 = Inr ov"
    using ranges_overlap_wf [OF assms(1,2), of 8] assms(3) by auto
  have cm: "clause_based_match (clauses x) (clauses y) cm (clause_ratio ?tc) =
            clause_based_match (clauses y) (clauses x) cm (clause_ratio ?tc)"
    by (rule clause_based_match_agree) (use assms(4) in blast)
  have sub: "is_subset ?a ?b (subset_floor ov ?tc) = is_subset ?b ?a (subset_floor ov ?tc)"
    by (rule is_subset_sym)
  have vc: "very_close ?a ?b (close_ratio ov ?tc) = very_close ?b ?a (close_ratio ov ?tc)"
    if "\<not> clause_based_match (clauses x) (clauses y) cm (clause_ratio ?tc)"
      and "\<not> is_subset ?a ?b (subset_floor ov ?tc)"
    by (rule very_close_agree) (use assms(5) that in blast)
  have "decision ?a ?b (clauses x) (clauses y) cm ov ?tc =
        decision ?b ?a (clauses y) (clauses x) cm ov ?tc"
    unfolding decision_thresholds using cm sub vc by blast
  then show ?thesis
    unfolding is_duplicate_decision [OF assms(3)] is_duplicate_decision [OF ov']
    using time_close_sym [of "timestamp x" "timestamp y" tt] by auto
qed

theorem is_duplicate_commutes_witness:
  "ratio (str ''reading a good book'') (str ''nobody could see them'') \<noteq>
     ratio (str ''nobody could see them'') (str ''reading a good book'') \<and>
   is_duplicate (sample 1 Highlight (Some 100, Some 110) None ''reading a good book'')
                (sample 0 Highlight (Some 102, Some 115) None ''nobody could see them'') 300 12
     = Inr False \<and>
   is_duplicate (sample 0 Highlight (Some 102, Some 115) None ''nobody could see them'')
                (sample 1 Highlight (Some 100, Some 110) None ''reading a good book'') 300 12
     = Inr False"
proof -
  let ?x = "sample 1 Highlight (Some 100, Some 110) None ''reading a good book''"
  let ?y = "sample 0 Highlight (Some 102, Some 115) None ''nobody could see them''"
  have r: "ratio (str ''reading a good book'') (str ''nobody could see them'') \<noteq>
     ratio (str ''nobody could see them'') (str ''reading a good book'')"
    by code_simp
  have h1: "well_formed_loc (loc ?x)" and h2: "well_formed_loc (loc ?y)"
    by (simp_all add: sample_def well_formed_loc_def)
  have h3: "ranges_overlap (loc ?x) (loc ?y) 8 = Inr True"
    by (simp add: sample_def)
  have h4: "\<forall>ca\<in>set (clauses ?x). \<forall>cb\<in>set (clauses ?y).
           12 \<le> int (length ca) \<longrightarrow> 12 \<le> int (length cb) \<longrightarrow>
           \<not> sublist ca cb \<longrightarrow> \<not> sublist cb ca \<longrightarrow>
           (clause_ratio (time_close (timestamp ?x) (timestamp ?y) 300) \<le> ratio ca cb) =
           (clause_ratio (time_close (timestamp ?x) (timestamp ?y) 300) \<le> ratio cb ca)"
    by code_simp
  have h5: "8 \<le> min (length (norm_text ?x)) (length (norm_text ?y)) \<longrightarrow>
         \<not> clause_based_match (clauses ?x) (clauses ?y) 12
             (clause_ratio (time_close (timestamp ?x) (timestamp ?y) 300)) \<longrightarrow>
         \<not> is_subset (norm_text ?x) (norm_text ?y)
             (subset_floor True (time_close (timestamp ?x) (timestamp ?y) 300)) \<longrightarrow>
         (close_ratio True (time_close (timestamp ?x) (timestamp ?y) 300)
            \<le> ratio (norm_text ?x) (norm_text ?y)) =
         (close_ratio True (time_close (timestamp ?x) (timestamp ?y) 300)
            \<le> ratio (norm_text ?y) (norm_text ?x))"
    by code_simp
  have v: "is_duplicate ?x ?y 300 12 = Inr False"
    by code_simp
  show ?thesis using is_duplicate_commutes [OF h1 h2 h3 h4 h5] r v by simp
qed

section \<open>Splitting the export into blocks\<close>

lemma join_Cons: "join sep (p # ps) = (if ps = [] then p else p @ sep @ join sep ps)"
  by (cases ps) simp_all

lemma split_from_not_Nil: "split_from sep cur s \<noteq> []"
  by (induction sep cur s rule: split_from.induct) auto

lemma join_split_from: "join sep (split_from sep cur s) = cur @ s"
proof (induction sep cur s rule: split_from.induct)
  case (1 sep cur)
  then show ?case by simp
next
  case (2 sep cur c cs)
  show ?case
  proof (cases "sep \<noteq> [] \<and> prefix sep (c # cs)")
    case True
    then have "sep @ drop (length sep) (c # cs) = c # cs"
      by (metis append_eq_conv_conj prefixE)
    then show ?thesis
      using True 2(1) by (simp add: join_Cons split_from_not_Nil del: drop_Suc_Cons)
  next
    case False
    then show ?thesis using 2(2) by auto
  qed
qed

lemma split_from_no_sep:
  assumes "sep \<noteq> []" and "\<forall>i<length cur. \<not> prefix sep (drop i (cur @ s))"
  shows "\<forall>p\<in>set (split_from sep cur s). \<not> sublist sep p"
  using assms
proof (induction sep cur s rule: split_from.induct)
  case (1 sep cur)
  have "\<not> sublist sep cur"
  proof
    assume "sublist sep cur"
    then obtain ps ss where c: "cur = ps @ sep @ ss" by (auto simp: sublist_def)
    then have "length ps < length cur" using 1(1) by simp
    moreover have "prefix sep (drop (length ps) (cur @ []))" using c by simp
    ultimately show False using 1(2) by blast
  qed
  then show ?case by simp
next
  case (2 sep cur c cs)
  have nosub: "\<not> sublist sep cur"
  proof
    assume "sublist sep cur"
    then obtain ps ss where c: "cur = ps @ sep @ ss" by (auto simp: sublist_def)
    then have "length ps < length cur" using 2(3) by simp
    moreover have "prefix sep (drop (length ps) (cur @ c # cs))" using c by simp
    ultimately show False using 2(4) by blast
  qed
  show ?case
  proof (cases "prefix sep (c # cs)")
    case True
    have "\<forall>p\<in>set (split_from sep [] (drop (length sep) (c # cs))). \<not> sublist sep p"
      using 2(1) True 2(3) by simp
    then show ?thesis using True 2(3) nosub by (simp del: drop_Suc_Cons)
  next
    case False
    have "\<forall>i<length (cur @ [c]). \<not> prefix sep (drop i ((cur @ [c]) @ cs))"
    proof (intro allI impI)
      fix i assume "i < length (cur @ [c])"
      then consider "i < length cur" | "i = length cur" by fastforce
      then show "\<not> prefix sep (drop i ((cur @ [c]) @ cs))"
      proof cases
        case 1 then show ?thesis using 2(4) by simp
      next
        case 2 then show ?thesis using False by simp
      qed
    qed
    then have "\<forall>p\<in>set (split_from sep (cur @ [c]) cs). \<not> sublist sep p"
      using 2(2) False 2(3) by blast
    then show ?thesis using False by simp
  qed
qed


lemma strip_comprehension: "[strip p. p \<leftarrow> xs, strip p \<noteq> []] = filter (\<lambda>p. p \<noteq> []) (map strip xs)"
  by (induction xs) auto

text \<open>
  Claim C4, as the specification words it: the marker is a line of ten hyphens. The code
  splits on ten equals signs; a text with ten hyphens in it is one block.
\<close>

theorem split_entries_hyphens_counterexample:
  "split_entries (str ''a----------b'') = [str ''a----------b''] \<and>
   split_entries (str ''a==========b'') = [str ''a'', str ''b'']"
  by code_simp

text \<open>
  Claim C4, amended: the marker is ten equals signs. For every input the parts of the
  split, put together again with the marker between them, are the input, no part
  contains the marker, and the blocks are the parts with leading and trailing whitespace
  removed, in order, without the empty ones.
\<close>

theorem split_entries_segments:
  "join SEPARATOR (split content SEPARATOR) = content \<and>
   (\<forall>p\<in>set (split content SEPARATOR). \<not> sublist SEPARATOR p) \<and>
   split_entries content = filter (\<lambda>p. p \<noteq> []) (map strip (split content SEPARATOR))"
proof -
  have "SEPARATOR \<noteq> []" by (simp add: SEPARATOR_def)
  then have "\<forall>p\<in>set (split content SEPARATOR). \<not> sublist SEPARATOR p"
    unfolding split_def using split_from_no_sep [of SEPARATOR "[]" content] by simp
  moreover have "split_entries content = filter (\<lambda>p. p \<noteq> []) (map strip (split content SEPARATOR))"
    unfolding split_entries_def Let_def by (simp add: strip_comprehension)
  ultimately show ?thesis by (simp add: split_def join_split_from)
qed

theorem split_entries_segments_witness:
  "str ''ab'' \<in> set (split (str ''ab==========  ==========cd '') SEPARATOR) \<and>
   \<not> sublist SEPARATOR (str ''ab'') \<and>
   split_entries (str ''ab==========  ==========cd '') = [str ''ab'', str ''cd'']"
proof -
  have s: "split (str ''ab==========  ==========cd '') SEPARATOR = [str ''ab'', str ''  '', str ''cd '']"
    by code_simp
  have e: "split_entries (str ''ab==========  ==========cd '') = [str ''ab'', str ''cd'']"
    by code_simp
  show ?thesis using split_entries_segments [of "str ''ab==========  ==========cd ''"] s e by simp
qed

section \<open>Grouping\<close>

lemma by_book_append_map_of:
  "map_of (by_book_append acc e) t =
     (if t = title e then Some ((case map_of acc t of None \<Rightarrow> [] | Some g \<Rightarrow> g) @ [e])
      else map_of acc t)"
  by (induction acc e rule: by_book_append.induct) auto

lemma by_book_append_keys:
  "map fst (by_book_append acc e) =
     (if title e \<in> set (map fst acc) then map fst acc else map fst acc @ [title e])"
  by (induction acc e rule: by_book_append.induct) auto

lemma foldl_by_book_append_distinct:
  "distinct (map fst acc) \<Longrightarrow> distinct (map fst (foldl by_book_append acc es))"
  by (induction es arbitrary: acc) (simp_all add: by_book_append_keys)

lemma by_book_append_key_set:
  "fst ` set (by_book_append acc e) = insert (title e) (fst ` set acc)"
  by (induction acc e rule: by_book_append.induct) auto

lemma foldl_by_book_append_keys:
  "fst ` set (foldl by_book_append acc es) = fst ` set acc \<union> title ` set es"
  by (induction es arbitrary: acc) (simp_all add: by_book_append_key_set)

lemma foldl_by_book_append_group:
  "(case map_of (foldl by_book_append acc es) t of None \<Rightarrow> [] | Some g \<Rightarrow> g) =
   (case map_of acc t of None \<Rightarrow> [] | Some g \<Rightarrow> g) @ filter (\<lambda>e. title e = t) es"
  by (induction es arbitrary: acc) (auto simp: by_book_append_map_of)

lemma by_book_distinct: "distinct (map fst (by_book es))"
  unfolding by_book_def by (rule foldl_by_book_append_distinct) simp

lemma by_book_keys: "fst ` set (by_book es) = title ` set es"
  unfolding by_book_def by (simp add: foldl_by_book_append_keys)

lemma by_book_member:
  assumes "(t, g) \<in> set (by_book es)"
  shows "g = filter (\<lambda>e. title e = t) es \<and> t \<in> title ` set es"
proof -
  have "map_of (by_book es) t = Some g"
    using assms by_book_distinct by (simp add: map_of_eq_Some_iff)
  then have "g = filter (\<lambda>e. title e = t) es"
    using foldl_by_book_append_group [of "[]" es t] by (simp add: by_book_def)
  moreover have "t \<in> title ` set es"
    using assms by_book_keys [of es] by force
  ultimately show ?thesis by simp
qed

lemma by_book_map_of:
  assumes "t \<in> title ` set es"
  shows "map_of (by_book es) t = Some (filter (\<lambda>e. title e = t) es)"
proof -
  have "t \<in> fst ` set (by_book es)" using assms by_book_keys [of es] by simp
  then have "map_of (by_book es) t \<noteq> None" by (simp add: map_of_eq_None_iff)
  then obtain g where g: "map_of (by_book es) t = Some g" by blast
  then have "(t, g) \<in> set (by_book es)" by (rule map_of_SomeD)
  then show ?thesis using by_book_member g by blast
qed

section \<open>The loop over the books\<close>

lemma dedup_books_Inr_iff:
  "dedup_books gs tt cm = Inr out \<longleftrightarrow>
     list_all2 (\<lambda>g r. fst r = fst g \<and> dedup_book (snd g) tt cm = Inr (snd r)) gs out"
proof (induction gs arbitrary: out)
  case Nil
  then show ?case by auto
next
  case (Cons g gs)
  obtain t es where g: "g = (t, es)" by (cases g)
  show ?case
    unfolding g by (cases out) (auto simp: Cons.IH [symmetric] split: sum.splits)
qed

lemma dedup_books_member:
  assumes "list_all2 (\<lambda>g r. fst r = fst g \<and> dedup_book (snd g) tt cm = Inr (snd r)) gs out"
    and "(t, items) \<in> set out"
  shows "\<exists>g. (t, g) \<in> set gs \<and> dedup_book g tt cm = Inr items"
  using assms
proof (induction rule: list_all2_induct)
  case Nil
  then show ?case by simp
next
  case (Cons g gs r out)
  show ?case
  proof (cases "r = (t, items)")
    case True
    then have "(t, snd g) \<in> set (g # gs)" "dedup_book (snd g) tt cm = Inr items"
      using Cons(1) by (simp_all add: prod_eq_iff)
    then show ?thesis by blast
  next
    case False
    then have "(t, items) \<in> set out" using Cons.prems by simp
    then obtain g' where "(t, g') \<in> set gs" "dedup_book g' tt cm = Inr items"
      using Cons.IH by blast
    then show ?thesis by auto
  qed
qed

lemma dedup_books_map_of:
  assumes "list_all2 (\<lambda>g r. fst r = fst g \<and> dedup_book (snd g) tt cm = Inr (snd r)) gs out"
    and "map_of gs t = Some g"
  shows "\<exists>items. map_of out t = Some items \<and> dedup_book g tt cm = Inr items"
  using assms
proof (induction rule: list_all2_induct)
  case Nil
  then show ?case by simp
next
  case (Cons g' gs r out)
  show ?case
  proof (cases "fst g' = t")
    case True
    then have "g = snd g'" using Cons.prems by (cases g') simp
    moreover have "map_of (r # out) t = Some (snd r)" using True Cons(1) by (cases r) simp
    ultimately show ?thesis using Cons(1) by simp
  next
    case False
    then have "map_of gs t = Some g" using Cons.prems by (cases g') simp
    moreover have "map_of (r # out) t = map_of out t" using False Cons(1) by (cases r) simp
    ultimately show ?thesis using Cons.IH by simp
  qed
qed

lemma dedup_books_total:
  assumes "\<forall>g\<in>set gs. \<exists>r. dedup_book (snd g) tt cm = Inr r"
  shows "\<exists>out. dedup_books gs tt cm = Inr out"
  using assms
proof (induction gs)
  case Nil
  then show ?case by simp
next
  case (Cons g gs)
  obtain t es where g: "g = (t, es)" by (cases g)
  from Cons obtain r out where "dedup_book es tt cm = Inr r" "dedup_books gs tt cm = Inr out"
    unfolding g by auto
  then show ?case unfolding g by simp
qed

lemma dedup_by_book_member:
  assumes "dedup_by_book entries tt cm = Inr out" and "(t, items) \<in> set out"
  shows "t \<in> title ` set entries \<and>
         dedup_book (filter (\<lambda>e. title e = t) entries) tt cm = Inr items"
proof -
  have "list_all2 (\<lambda>g r. fst r = fst g \<and> dedup_book (snd g) tt cm = Inr (snd r))
          (by_book entries) out"
    using assms(1) unfolding dedup_by_book_def dedup_books_Inr_iff .
  from dedup_books_member [OF this assms(2)]
  obtain g where "(t, g) \<in> set (by_book entries)" "dedup_book g tt cm = Inr items"
    by blast
  then show ?thesis using by_book_member by blast
qed

section \<open>The retention loop\<close>

lemma keep_step_blank: "blank cur \<Longrightarrow> keep_step tt cm st cur = Inr st"
  by (cases st) (auto simp: blank_def)

lemma keep_step_highlight_like:
  "\<not> blank cur \<Longrightarrow> highlight_like cur \<Longrightarrow>
   keep_step tt cm (h, n, b) cur =
     (case any_is_duplicate cur h tt cm of
        Inl e \<Rightarrow> Inl e
      | Inr dup \<Rightarrow> Inr (if dup then h else h @ [cur], n, b))"
  by (auto simp: blank_def highlight_like_def)

lemma keep_step_note:
  "\<not> blank cur \<Longrightarrow> kind cur = Note \<Longrightarrow>
   keep_step tt cm (h, n, b) cur =
     Inr (h, if list_ex (\<lambda>k. norm_text cur = norm_text k) n then n else n @ [cur], b)"
  by (auto simp: blank_def)

lemma keep_step_bookmark:
  "\<not> blank cur \<Longrightarrow> kind cur = Bookmark \<Longrightarrow>
   keep_step tt cm (h, n, b) cur =
     Inr (h, n, if list_ex (\<lambda>k. meta cur = meta k) b then b else b @ [cur])"
  by (auto simp: blank_def)

lemma kind_cases:
  obtains "highlight_like e" | "kind e = Note" "\<not> highlight_like e"
        | "kind e = Bookmark" "\<not> highlight_like e"
  by (cases "kind e") (auto simp: highlight_like_def)

declare keep_step.simps [simp del]

lemma keep_loop_blank: "\<forall>e\<in>set es. blank e \<Longrightarrow> keep_loop tt cm st es = Inr st"
  by (induction es) (simp_all add: keep_step_blank)


text \<open>Totality for well-formed locations.\<close>

lemma is_duplicate_total:
  assumes "well_formed_loc (loc x)" and "well_formed_loc (loc y)"
  shows "\<exists>r. is_duplicate x y tt cm = Inr r"
proof -
  obtain ov where "ranges_overlap (loc x) (loc y) 8 = Inr ov"
    using ranges_overlap_wf [OF assms, of 8] by blast
  then show ?thesis by (simp add: is_duplicate_decision)
qed

lemma any_is_duplicate_total:
  assumes "well_formed_loc (loc cur)" and "\<forall>k\<in>set ks. well_formed_loc (loc k)"
  shows "\<exists>r. any_is_duplicate cur ks tt cm = Inr r"
  using assms(2)
proof (induction ks)
  case Nil
  show ?case by (rule exI [of _ False]) simp
next
  case (Cons k ks)
  obtain r where r: "is_duplicate cur k tt cm = Inr r"
    using is_duplicate_total [OF assms(1), of k tt cm] Cons.prems by auto
  obtain r' where r': "any_is_duplicate cur ks tt cm = Inr r'"
    using Cons by auto
  show ?case by (cases r) (auto simp: r r')
qed

lemma keep_step_total:
  assumes "well_formed_loc (loc cur)" and "\<forall>k\<in>set h. well_formed_loc (loc k)"
  shows "\<exists>st. keep_step tt cm (h, n, b) cur = Inr st \<and>
           (\<forall>k\<in>set (fst st). well_formed_loc (loc k))"
proof (cases "blank cur")
  case True
  then show ?thesis using assms(2) by (simp add: keep_step_blank)
next
  case False
  obtain r where r: "any_is_duplicate cur h tt cm = Inr r"
    using any_is_duplicate_total [OF assms] by blast
  show ?thesis
  proof (rule kind_cases [of cur])
    assume "highlight_like cur"
    then have "keep_step tt cm (h, n, b) cur = Inr (if r then h else h @ [cur], n, b)"
      using False r by (simp add: keep_step_highlight_like)
    then show ?thesis using assms by simp
  next
    assume "kind cur = Note"
    then show ?thesis using False assms(2) by (simp add: keep_step_note)
  next
    assume "kind cur = Bookmark"
    then show ?thesis using False assms(2) by (simp add: keep_step_bookmark)
  qed
qed

lemma keep_loop_total:
  assumes "\<forall>e\<in>set es. well_formed_loc (loc e)" and "\<forall>k\<in>set (fst st). well_formed_loc (loc k)"
  shows "\<exists>st'. keep_loop tt cm st es = Inr st'"
  using assms
proof (induction es arbitrary: st)
  case Nil
  show ?case by (rule exI [of _ st]) simp
next
  case (Cons e es)
  obtain h n b where st: "st = (h, n, b)" by (cases st)
  have "well_formed_loc (loc e)" "\<forall>k\<in>set h. well_formed_loc (loc k)"
    using Cons.prems st by simp_all
  from keep_step_total [OF this, of tt cm n b]
  obtain st1 where s: "keep_step tt cm st e = Inr st1"
      "\<forall>k\<in>set (fst st1). well_formed_loc (loc k)"
    unfolding st by blast
  have "\<forall>e\<in>set es. well_formed_loc (loc e)" using Cons.prems by simp
  from Cons.IH [OF this s(2)] show ?case using s(1) by simp
qed

lemma dedup_book_total:
  assumes "\<forall>e\<in>set es. well_formed_loc (loc e)"
  shows "\<exists>r. dedup_book es tt cm = Inr r"
proof -
  have "\<forall>e\<in>set (rev es). well_formed_loc (loc e)" using assms by simp
  from keep_loop_total [OF this, of "([], [], [])" tt cm]
  obtain st where "keep_loop tt cm ([], [], []) (rev es) = Inr st" by auto
  then show ?thesis unfolding dedup_book_def by (cases st) simp
qed

lemma dedup_by_book_total:
  assumes "\<forall>e\<in>set entries. well_formed_loc (loc e)"
  shows "\<exists>out. dedup_by_book entries tt cm = Inr out"
  unfolding dedup_by_book_def
proof (rule dedup_books_total, rule ballI)
  fix g assume "g \<in> set (by_book entries)"
  then have "snd g = filter (\<lambda>e. title e = fst g) entries"
    using by_book_member [of "fst g" "snd g" entries] by simp
  then have "\<forall>e\<in>set (snd g). well_formed_loc (loc e)" using assms by simp
  then show "\<exists>r. dedup_book (snd g) tt cm = Inr r" by (rule dedup_book_total)
qed

lemma dedup_book_blank:
  assumes "\<forall>e\<in>set es. blank e"
  shows "dedup_book es tt cm = Inr []"
  unfolding dedup_book_def using keep_loop_blank [of "rev es" tt cm "([], [], [])"] assms
  by simp

text \<open>
  Claim C10: a document all of whose entries have an empty or whitespace-only body is
  still a key of the result, with the empty list as its value. Whenever
  \<^verbatim>\<open>dedup_by_book\<close> returns, the title is mapped to the empty list; and it does return
  when every location has both ends or neither, which is all that \<^verbatim>\<open>parse_loc\<close> builds
  (otherwise \<^verbatim>\<open>ranges_overlap\<close> may raise on the entries of another document).
\<close>

theorem blank_document_kept:
  assumes "t \<in> title ` set entries"
    and "\<forall>e\<in>set entries. title e = t \<longrightarrow> body e = [] \<or> strip (body e) = []"
  shows "(\<forall>out. dedup_by_book entries tt cm = Inr out \<longrightarrow> map_of out t = Some []) \<and>
         ((\<forall>e\<in>set entries. well_formed_loc (loc e)) \<longrightarrow>
            (\<exists>out. dedup_by_book entries tt cm = Inr out))"
proof (intro conjI allI impI)
  fix out
  assume out: "dedup_by_book entries tt cm = Inr out"
  have "map_of (by_book entries) t = Some (filter (\<lambda>e. title e = t) entries)"
    using by_book_map_of [OF assms(1)] .
  moreover have "list_all2 (\<lambda>g r. fst r = fst g \<and> dedup_book (snd g) tt cm = Inr (snd r))
          (by_book entries) out"
    using out unfolding dedup_by_book_def dedup_books_Inr_iff .
  ultimately have "\<exists>items. map_of out t = Some items \<and>
      dedup_book (filter (\<lambda>e. title e = t) entries) tt cm = Inr items"
    by (rule dedup_books_map_of [rotated])
  then obtain items where items: "map_of out t = Some items"
      "dedup_book (filter (\<lambda>e. title e = t) entries) tt cm = Inr items"
    by blast
  have "dedup_book (filter (\<lambda>e. title e = t) entries) tt cm = Inr []"
    by (rule dedup_book_blank) (use assms(2) in \<open>auto simp: blank_def\<close>)
  then show "map_of out t = Some []" using items by simp
next
  assume "\<forall>e\<in>set entries. well_formed_loc (loc e)"
  then show "\<exists>out. dedup_by_book entries tt cm = Inr out" by (rule dedup_by_book_total)
qed

theorem blank_document_kept_witness:
  "\<exists>out. dedup_by_book
       [(sample 0 Bookmark (Some 5, Some 5) None [])\<lparr>clauses := []\<rparr>,
        (sample 1 Highlight (Some 7, Some 9) None ''alpha'')\<lparr>title := str ''Other''\<rparr>]
       300 12 = Inr out \<and>
     map_of out (str ''Book'') = Some []"
proof -
  let ?es = "[(sample 0 Bookmark (Some 5, Some 5) None [])\<lparr>clauses := []\<rparr>,
        (sample 1 Highlight (Some 7, Some 9) None ''alpha'')\<lparr>title := str ''Other''\<rparr>]"
  have h1: "\<forall>e\<in>set ?es. well_formed_loc (loc e)" by code_simp
  have h2: "str ''Book'' \<in> title ` set ?es" by (simp add: sample_def)
  have h3: "\<forall>e\<in>set ?es. title e = str ''Book'' \<longrightarrow> body e = [] \<or> strip (body e) = []"
    by code_simp
  show ?thesis using blank_document_kept [OF h2 h3, of 300 12] h1 by blast
qed

section \<open>Invariant of the retention loop\<close>

lemma any_is_duplicate_False_iff:
  "any_is_duplicate cur ks tt cm = Inr False \<longleftrightarrow>
     (\<forall>k\<in>set ks. is_duplicate cur k tt cm = Inr False)"
proof (induction ks)
  case Nil
  show ?case by simp
next
  case (Cons k ks)
  show ?case
  proof (cases "is_duplicate cur k tt cm")
    case (Inl e)
    then show ?thesis by simp
  next
    case (Inr d)
    then show ?thesis using Cons by (cases d) simp_all
  qed
qed

lemma keep_step_cases:
  assumes "keep_step tt cm (h, n, b) cur = Inr st'"
  obtains (same) "st' = (h, n, b)"
    | (hl) "st' = (h @ [cur], n, b)" "highlight_like cur" "\<not> blank cur"
        "\<forall>k\<in>set h. is_duplicate cur k tt cm = Inr False"
    | (nt) "st' = (h, n @ [cur], b)" "kind cur = Note" "\<not> blank cur"
        "norm_text cur \<notin> norm_text ` set n"
    | (bm) "st' = (h, n, b @ [cur])" "kind cur = Bookmark" "\<not> blank cur"
        "meta cur \<notin> meta ` set b"
proof (cases "blank cur")
  case True
  then show ?thesis using assms same by (simp add: keep_step_blank)
next
  case False
  show ?thesis
  proof (rule kind_cases [of cur])
    assume hlc: "highlight_like cur"
    obtain d where d: "any_is_duplicate cur h tt cm = Inr d"
        "st' = (if d then h else h @ [cur], n, b)"
      using assms False hlc by (cases "any_is_duplicate cur h tt cm")
        (simp_all add: keep_step_highlight_like)
    show ?thesis
    proof (cases d)
      case True
      then show ?thesis using d same by simp
    next
      case nd: False
      then have "\<forall>k\<in>set h. is_duplicate cur k tt cm = Inr False"
        using d(1) any_is_duplicate_False_iff by simp
      then show ?thesis using hl d(2) nd hlc False by simp
    qed
  next
    assume k: "kind cur = Note"
    then have s: "st' = (h, if list_ex (\<lambda>k. norm_text cur = norm_text k) n then n
                         else n @ [cur], b)"
      using assms False by (simp add: keep_step_note)
    show ?thesis
    proof (cases "list_ex (\<lambda>k. norm_text cur = norm_text k) n")
      case True
      then show ?thesis using s same by simp
    next
      case nd: False
      then have "norm_text cur \<notin> norm_text ` set n" by (auto simp: list_ex_iff)
      then show ?thesis using nt s nd k False by simp
    qed
  next
    assume k: "kind cur = Bookmark"
    then have s: "st' = (h, n, if list_ex (\<lambda>k. meta cur = meta k) b then b else b @ [cur])"
      using assms False by (simp add: keep_step_bookmark)
    show ?thesis
    proof (cases "list_ex (\<lambda>k. meta cur = meta k) b")
      case True
      then show ?thesis using s same by simp
    next
      case nd: False
      then have "meta cur \<notin> meta ` set b" by (auto simp: list_ex_iff)
      then show ?thesis using bm s nd k False by simp
    qed
  qed
qed

lemma keep_loop_Cons_Inr:
  assumes "keep_loop tt cm st (e # es) = Inr st'"
  obtains st2 where "keep_step tt cm st e = Inr st2" and "keep_loop tt cm st2 es = Inr st'"
  using assms by (cases "keep_step tt cm st e") simp_all

lemma keep_step_inv:
  assumes "kept_inv tt cm (h, n, b)" and "keep_step tt cm (h, n, b) cur = Inr st'"
  shows "kept_inv tt cm st'"
  using assms(2)
proof (cases rule: keep_step_cases)
  case same
  then show ?thesis using assms(1) by simp
next
  case hl
  then show ?thesis using assms(1) by (simp add: kept_inv_def sorted_wrt_append)
next
  case nt
  then show ?thesis using assms(1) by (simp add: kept_inv_def)
next
  case bm
  then show ?thesis using assms(1) by (simp add: kept_inv_def)
qed

lemma keep_loop_inv:
  assumes "kept_inv tt cm st" and "keep_loop tt cm st es = Inr st'"
  shows "kept_inv tt cm st'"
  using assms
proof (induction es arbitrary: st)
  case Nil
  then show ?case by simp
next
  case (Cons e es)
  from Cons.prems(2) obtain st2 where s: "keep_step tt cm st e = Inr st2"
      "keep_loop tt cm st2 es = Inr st'"
    by (rule keep_loop_Cons_Inr)
  obtain h n b where st: "st = (h, n, b)" by (cases st)
  have "kept_inv tt cm st2" using keep_step_inv Cons.prems(1) s(1) unfolding st by blast
  then show ?case using Cons.IH s(2) by blast
qed

lemma keep_loop_subset:
  assumes "keep_loop tt cm (h, n, b) es = Inr (h', n', b')"
  shows "set h' \<subseteq> set h \<union> set es \<and> set n' \<subseteq> set n \<union> set es \<and> set b' \<subseteq> set b \<union> set es"
  using assms
proof (induction es arbitrary: h n b)
  case Nil
  then show ?case by simp
next
  case (Cons e es)
  from Cons.prems obtain st2 where s: "keep_step tt cm (h, n, b) e = Inr st2"
      "keep_loop tt cm st2 es = Inr (h', n', b')"
    by (rule keep_loop_Cons_Inr)
  obtain h2 n2 b2 where st2: "st2 = (h2, n2, b2)" by (cases st2)
  have "set h2 \<subseteq> set h \<union> {e} \<and> set n2 \<subseteq> set n \<union> {e} \<and> set b2 \<subseteq> set b \<union> {e}"
    using s(1) unfolding st2 by (cases rule: keep_step_cases) auto
  moreover have "set h' \<subseteq> set h2 \<union> set es \<and> set n' \<subseteq> set n2 \<union> set es \<and>
      set b' \<subseteq> set b2 \<union> set es"
    using Cons.IH s(2) unfolding st2 by blast
  ultimately show ?case by auto
qed

lemma dedup_book_Inr:
  assumes "dedup_book es tt cm = Inr items"
  obtains h n b where "keep_loop tt cm ([], [], []) (rev es) = Inr (h, n, b)"
    and "items = sort_key entry_sort_key h @ sort_key entry_sort_key n @
                 sort_key entry_sort_key b"
proof (cases "keep_loop tt cm ([], [], []) (rev es)")
  case (Inl e)
  then show ?thesis using assms by (simp add: dedup_book_def)
next
  case (Inr st)
  obtain h n b where "st = (h, n, b)" by (cases st)
  then show ?thesis using that Inr assms by (simp add: dedup_book_def)
qed

lemma kept_inv_init: "kept_inv tt cm ([], [], [])"
  by (simp add: kept_inv_def)

section \<open>Buckets\<close>

lemma keep_step_frame_h:
  assumes "keep_step tt cm (h, n, b) cur = Inr (h', n', b')"
  shows "if highlight_like cur then keep_step tt cm (h, n0, b0) cur = Inr (h', n0, b0)
         else h' = h"
proof (cases "blank cur")
  case True
  then show ?thesis using assms by (simp add: keep_step_blank)
next
  case False
  show ?thesis
  proof (rule kind_cases [of cur])
    assume hl: "highlight_like cur"
    then show ?thesis using assms False
      by (cases "any_is_duplicate cur h tt cm") (simp_all add: keep_step_highlight_like)
  next
    assume "kind cur = Note" "\<not> highlight_like cur"
    then show ?thesis using assms False by (simp add: keep_step_note)
  next
    assume "kind cur = Bookmark" "\<not> highlight_like cur"
    then show ?thesis using assms False by (simp add: keep_step_bookmark)
  qed
qed

lemma keep_step_frame_n:
  assumes "keep_step tt cm (h, n, b) cur = Inr (h', n', b')"
  shows "if kind cur = Note then keep_step tt cm (h0, n, b0) cur = Inr (h0, n', b0)
         else n' = n"
proof (cases "blank cur")
  case True
  then show ?thesis using assms by (simp add: keep_step_blank)
next
  case False
  show ?thesis
  proof (rule kind_cases [of cur])
    assume hl: "highlight_like cur"
    then have "kind cur \<noteq> Note" by (auto simp: highlight_like_def)
    then show ?thesis using assms False hl
      by (cases "any_is_duplicate cur h tt cm") (simp_all add: keep_step_highlight_like)
  next
    assume "kind cur = Note" "\<not> highlight_like cur"
    then show ?thesis using assms False by (simp add: keep_step_note)
  next
    assume "kind cur = Bookmark" "\<not> highlight_like cur"
    then show ?thesis using assms False by (simp add: keep_step_bookmark)
  qed
qed

lemma keep_step_frame_b:
  assumes "keep_step tt cm (h, n, b) cur = Inr (h', n', b')"
  shows "if kind cur = Bookmark then keep_step tt cm (h0, n0, b) cur = Inr (h0, n0, b')
         else b' = b"
proof (cases "blank cur")
  case True
  then show ?thesis using assms by (simp add: keep_step_blank)
next
  case False
  show ?thesis
  proof (rule kind_cases [of cur])
    assume hl: "highlight_like cur"
    then have "kind cur \<noteq> Bookmark" by (auto simp: highlight_like_def)
    then show ?thesis using assms False hl
      by (cases "any_is_duplicate cur h tt cm") (simp_all add: keep_step_highlight_like)
  next
    assume "kind cur = Note" "\<not> highlight_like cur"
    then show ?thesis using assms False by (simp add: keep_step_note)
  next
    assume "kind cur = Bookmark" "\<not> highlight_like cur"
    then show ?thesis using assms False by (simp add: keep_step_bookmark)
  qed
qed

lemma keep_loop_filter_h:
  assumes "keep_loop tt cm (h, n, b) es = Inr (h', n', b')"
  shows "keep_loop tt cm (h, n0, b0) (filter highlight_like es) = Inr (h', n0, b0)"
  using assms
proof (induction es arbitrary: h n b)
  case Nil
  then show ?case by simp
next
  case (Cons e es)
  from Cons.prems obtain st2 where s: "keep_step tt cm (h, n, b) e = Inr st2"
      "keep_loop tt cm st2 es = Inr (h', n', b')"
    by (rule keep_loop_Cons_Inr)
  obtain h2 n2 b2 where st2: "st2 = (h2, n2, b2)" by (cases st2)
  have ih: "keep_loop tt cm (h2, n0, b0) (filter highlight_like es) = Inr (h', n0, b0)"
    using Cons.IH s(2) unfolding st2 by blast
  show ?case
    using keep_step_frame_h [OF s(1) [unfolded st2], of n0 b0] ih
    by (cases "highlight_like e") simp_all
qed

lemma keep_loop_filter_n:
  assumes "keep_loop tt cm (h, n, b) es = Inr (h', n', b')"
  shows "keep_loop tt cm (h0, n, b0) (filter (\<lambda>e. kind e = Note) es) = Inr (h0, n', b0)"
  using assms
proof (induction es arbitrary: h n b)
  case Nil
  then show ?case by simp
next
  case (Cons e es)
  from Cons.prems obtain st2 where s: "keep_step tt cm (h, n, b) e = Inr st2"
      "keep_loop tt cm st2 es = Inr (h', n', b')"
    by (rule keep_loop_Cons_Inr)
  obtain h2 n2 b2 where st2: "st2 = (h2, n2, b2)" by (cases st2)
  have ih: "keep_loop tt cm (h0, n2, b0) (filter (\<lambda>e. kind e = Note) es) = Inr (h0, n', b0)"
    using Cons.IH s(2) unfolding st2 by blast
  show ?case
    using keep_step_frame_n [OF s(1) [unfolded st2], of h0 b0] ih
    by (cases "kind e = Note") simp_all
qed

lemma keep_loop_filter_b:
  assumes "keep_loop tt cm (h, n, b) es = Inr (h', n', b')"
  shows "keep_loop tt cm (h0, n0, b) (filter (\<lambda>e. kind e = Bookmark) es) = Inr (h0, n0, b')"
  using assms
proof (induction es arbitrary: h n b)
  case Nil
  then show ?case by simp
next
  case (Cons e es)
  from Cons.prems obtain st2 where s: "keep_step tt cm (h, n, b) e = Inr st2"
      "keep_loop tt cm st2 es = Inr (h', n', b')"
    by (rule keep_loop_Cons_Inr)
  obtain h2 n2 b2 where st2: "st2 = (h2, n2, b2)" by (cases st2)
  have ih: "keep_loop tt cm (h0, n0, b2) (filter (\<lambda>e. kind e = Bookmark) es) = Inr (h0, n0, b')"
    using Cons.IH s(2) unfolding st2 by blast
  show ?case
    using keep_step_frame_b [OF s(1) [unfolded st2], of h0 n0] ih
    by (cases "kind e = Bookmark") simp_all
qed

lemma dedup_book_buckets:
  assumes "dedup_book es tt cm = Inr items"
  shows "\<exists>h n b. items = h @ n @ b \<and>
     dedup_book (filter highlight_like es) tt cm = Inr h \<and>
     dedup_book (filter (\<lambda>e. kind e = Note) es) tt cm = Inr n \<and>
     dedup_book (filter (\<lambda>e. kind e = Bookmark) es) tt cm = Inr b"
proof -
  from assms obtain h n b where k: "keep_loop tt cm ([], [], []) (rev es) = Inr (h, n, b)"
    and items: "items = sort_key entry_sort_key h @ sort_key entry_sort_key n @
                 sort_key entry_sort_key b"
    by (rule dedup_book_Inr)
  have "dedup_book (filter highlight_like es) tt cm = Inr (sort_key entry_sort_key h)"
    using keep_loop_filter_h [OF k, of "[]" "[]"] by (simp add: dedup_book_def rev_filter)
  moreover have "dedup_book (filter (\<lambda>e. kind e = Note) es) tt cm =
      Inr (sort_key entry_sort_key n)"
    using keep_loop_filter_n [OF k, of "[]" "[]"] by (simp add: dedup_book_def rev_filter)
  moreover have "dedup_book (filter (\<lambda>e. kind e = Bookmark) es) tt cm =
      Inr (sort_key entry_sort_key b)"
    using keep_loop_filter_b [OF k, of "[]" "[]"] by (simp add: dedup_book_def rev_filter)
  ultimately show ?thesis using items by blast
qed

text \<open>
  Claim C5, as the specification words it: an entry of kind \<^verbatim>\<open>unknown\<close> is never
  classified against a kept highlight, nor the other way round. The last branch of the
  loop tests an entry of any other kind against \<^verbatim>\<open>kept_h\<close> and appends it there: a
  highlight followed by an entry of kind \<^verbatim>\<open>unknown\<close> with the same text is suppressed
  by it, though alone it is kept.
\<close>

theorem unknown_suppresses_highlight_counterexample:
  "dedup_by_book [sample 0 Highlight (Some 100, Some 110) None ''alpha'',
                  sample 1 Unknown (Some 100, Some 110) None ''alpha''] 300 12 =
     Inr [(str ''Book'', [sample 1 Unknown (Some 100, Some 110) None ''alpha''])] \<and>
   dedup_by_book [sample 0 Highlight (Some 100, Some 110) None ''alpha''] 300 12 =
     Inr [(str ''Book'', [sample 0 Highlight (Some 100, Some 110) None ''alpha''])]"
  by code_simp

text \<open>
  Claim C5, amended: there are three buckets per document, one for highlights together
  with entries of kind \<^verbatim>\<open>unknown\<close>, one for notes and one for bookmarks. The output of
  a document is the output for its highlights and unknown entries alone, followed by
  the output for its notes alone, followed by the output for its bookmarks alone; so
  what is kept from a bucket does not depend on the entries of another bucket or of
  another document.
\<close>

theorem dedup_buckets_independent:
  assumes "dedup_by_book entries tt cm = Inr out" and "(t, items) \<in> set out"
  shows "\<exists>h n b. items = h @ n @ b \<and>
     dedup_book [e\<leftarrow>entries. title e = t \<and> (kind e = Highlight \<or> kind e = Unknown)] tt cm
       = Inr h \<and>
     dedup_book [e\<leftarrow>entries. title e = t \<and> kind e = Note] tt cm = Inr n \<and>
     dedup_book [e\<leftarrow>entries. title e = t \<and> kind e = Bookmark] tt cm = Inr b"
proof -
  have "dedup_book (filter (\<lambda>e. title e = t) entries) tt cm = Inr items"
    using dedup_by_book_member [OF assms] by simp
  from dedup_book_buckets [OF this] show ?thesis
    by (simp add: highlight_like_def)
qed

theorem dedup_buckets_independent_witness:
  "\<exists>h n b.
     [sample 2 Unknown (Some 5, Some 6) None ''gamma'',
      sample 0 Highlight (Some 100, Some 110) None ''alpha'',
      sample 1 Note (Some 100, Some 100) None ''alpha''] = h @ n @ b \<and>
     dedup_book [sample 0 Highlight (Some 100, Some 110) None ''alpha'',
                 sample 2 Unknown (Some 5, Some 6) None ''gamma''] 300 12 = Inr h \<and>
     dedup_book [sample 1 Note (Some 100, Some 100) None ''alpha''] 300 12 = Inr n \<and>
     dedup_book [] 300 12 = Inr b"
proof -
  let ?es = "[sample 0 Highlight (Some 100, Some 110) None ''alpha'',
              sample 1 Note (Some 100, Some 100) None ''alpha'',
              sample 2 Unknown (Some 5, Some 6) None ''gamma'']"
  let ?items = "[sample 2 Unknown (Some 5, Some 6) None ''gamma'',
      sample 0 Highlight (Some 100, Some 110) None ''alpha'',
      sample 1 Note (Some 100, Some 100) None ''alpha'']"
  have v: "dedup_by_book ?es 300 12 = Inr [(str ''Book'', ?items)]"
    by code_simp
  have m: "(str ''Book'', ?items) \<in> set [(str ''Book'', ?items)]" by simp
  show ?thesis using dedup_buckets_independent [OF v m] by (simp add: sample_def)
qed

section \<open>Exact duplicates\<close>

lemma is_duplicate_same:
  "norm_text x = norm_text y \<Longrightarrow> norm_text x \<noteq> [] \<Longrightarrow> is_duplicate x y tt cm = Inr True"
  by (simp add: is_duplicate_def)

lemma distinct_map_filter_le1:
  "distinct (map f xs) \<Longrightarrow> length (filter (\<lambda>x. f x = s) xs) \<le> 1"
proof (induction xs)
  case Nil
  then show ?case by simp
next
  case (Cons x xs)
  show ?case
  proof (cases "f x = s")
    case True
    have "f x \<notin> f ` set xs" using Cons.prems by simp
    then have "f y \<noteq> s" if "y \<in> set xs" for y
      using True that by (metis image_eqI)
    then have "filter (\<lambda>x. f x = s) xs = []" by (simp add: filter_empty_conv)
    then show ?thesis using True by simp
  next
    case False
    then show ?thesis using Cons by simp
  qed
qed

lemma no_duplicate_filter_le1:
  assumes "sorted_wrt (\<lambda>k x. is_duplicate x k tt cm = Inr False) h" and "s \<noteq> []"
  shows "length (filter (\<lambda>e. norm_text e = s) h) \<le> 1"
  using assms(1)
proof (induction h)
  case Nil
  then show ?case by simp
next
  case (Cons x xs)
  show ?case
  proof (cases "norm_text x = s")
    case True
    have "norm_text y \<noteq> s" if "y \<in> set xs" for y
    proof
      assume "norm_text y = s"
      then have "is_duplicate y x tt cm = Inr True"
        using True assms(2) by (simp add: is_duplicate_same)
      moreover have "is_duplicate y x tt cm = Inr False" using Cons.prems that by simp
      ultimately show False by simp
    qed
    then have "filter (\<lambda>e. norm_text e = s) xs = []" by (auto simp: filter_empty_conv)
    then show ?thesis using True by simp
  next
    case False
    then show ?thesis using Cons by simp
  qed
qed

lemma length_filter_conj_le:
  "length (filter (\<lambda>e. P e \<and> Q e) xs) \<le> length (filter Q xs)"
  by (induction xs) auto

lemma length_filter_sort_key:
  "length (filter P (sort_key f xs)) = length (filter P xs)"
  by (simp add: filter_sort)

lemma dedup_book_kept:
  assumes "dedup_book es tt cm = Inr items"
  obtains h n b where "items = sort_key entry_sort_key h @ sort_key entry_sort_key n @
                 sort_key entry_sort_key b"
    and "kept_inv tt cm (h, n, b)"
    and "set h \<subseteq> set es" and "set n \<subseteq> set es" and "set b \<subseteq> set es"
proof -
  from assms obtain h n b where k: "keep_loop tt cm ([], [], []) (rev es) = Inr (h, n, b)"
    and items: "items = sort_key entry_sort_key h @ sort_key entry_sort_key n @
                 sort_key entry_sort_key b"
    by (rule dedup_book_Inr)
  have "kept_inv tt cm (h, n, b)" using keep_loop_inv [OF kept_inv_init k] .
  moreover have "set h \<subseteq> set es" "set n \<subseteq> set es" "set b \<subseteq> set es"
    using keep_loop_subset [OF k] by simp_all
  ultimately show ?thesis using that items by blast
qed

text \<open>
  Claim C6, as the specification words it: of two entries of the same kind and document
  with identical normalized bodies at most one survives. \<^verbatim>\<open>is_duplicate\<close> answers
  false as soon as a normalized body is empty, and the body \<^verbatim>\<open>?\<close> is not blank while
  its normalized form is empty (trailing sentence punctuation is removed, and
  \<^verbatim>\<open>split_clauses\<close> of the empty string is the empty list): two such highlights are
  both kept.
\<close>

theorem empty_norm_highlights_counterexample:
  "dedup_by_book
     [(sample 0 Highlight (Some 10, Some 10) None ''?'')\<lparr>norm_text := [], clauses := []\<rparr>,
      (sample 1 Highlight (Some 20, Some 20) None ''?'')\<lparr>norm_text := [], clauses := []\<rparr>]
     300 12 =
   Inr [(str ''Book'',
     [(sample 0 Highlight (Some 10, Some 10) None ''?'')\<lparr>norm_text := [], clauses := []\<rparr>,
      (sample 1 Highlight (Some 20, Some 20) None ''?'')\<lparr>norm_text := [], clauses := []\<rparr>])]"
  by code_simp

text \<open>
  Claim C6, amended: in the output of a document, at most one entry of kind highlight
  or unknown has a given non-empty normalized body, at most one note has a given
  normalized body, and at most one bookmark has a given metadata line (bookmarks are
  compared by \<^verbatim>\<open>meta\<close>, not by normalized body), whatever the locations and timestamps.
\<close>

theorem exact_duplicates_collapse:
  assumes "dedup_by_book entries tt cm = Inr out" and "(t, items) \<in> set out"
  shows "(s \<noteq> [] \<longrightarrow>
          length [e\<leftarrow>items. (kind e = Highlight \<or> kind e = Unknown) \<and> norm_text e = s] \<le> 1) \<and>
         length [e\<leftarrow>items. kind e = Note \<and> norm_text e = s] \<le> 1 \<and>
         length [e\<leftarrow>items. kind e = Bookmark \<and> meta e = m] \<le> 1"
proof -
  have "dedup_book (filter (\<lambda>e. title e = t) entries) tt cm = Inr items"
    using dedup_by_book_member [OF assms] by simp
  then obtain h n b where items: "items = sort_key entry_sort_key h @
      sort_key entry_sort_key n @ sort_key entry_sort_key b"
    and inv: "kept_inv tt cm (h, n, b)"
    by (rule dedup_book_kept)
  have kh: "\<forall>e\<in>set h. highlight_like e" and kn: "\<forall>e\<in>set n. kind e = Note"
    and kb: "\<forall>e\<in>set b. kind e = Bookmark"
    and sh: "sorted_wrt (\<lambda>k x. is_duplicate x k tt cm = Inr False) h"
    and dn: "distinct (map norm_text n)" and db: "distinct (map meta b)"
    using inv by (simp_all add: kept_inv_def)
  let ?H = "\<lambda>e. (kind e = Highlight \<or> kind e = Unknown) \<and> norm_text e = s"
  let ?N = "\<lambda>e. kind e = Note \<and> norm_text e = s"
  let ?B = "\<lambda>e. kind e = Bookmark \<and> meta e = m"
  have e1: "filter ?H (sort_key entry_sort_key n) = []" "filter ?H (sort_key entry_sort_key b) = []"
    using kn kb by (auto simp: filter_empty_conv)
  have e2: "filter ?N (sort_key entry_sort_key h) = []" "filter ?N (sort_key entry_sort_key b) = []"
    using kh kb by (auto simp: filter_empty_conv highlight_like_def)
  have e3: "filter ?B (sort_key entry_sort_key h) = []" "filter ?B (sort_key entry_sort_key n) = []"
    using kh kn by (auto simp: filter_empty_conv highlight_like_def)
  have "length (filter ?H items) \<le> 1" if "s \<noteq> []"
  proof -
    have "length (filter ?H items) = length (filter ?H h)"
      unfolding items by (simp add: e1 length_filter_sort_key)
    also have "\<dots> \<le> length (filter (\<lambda>e. norm_text e = s) h)" by (rule length_filter_conj_le)
    also have "\<dots> \<le> 1" using no_duplicate_filter_le1 [OF sh that] .
    finally show ?thesis .
  qed
  moreover have "length (filter ?N items) \<le> 1"
  proof -
    have "length (filter ?N items) = length (filter ?N n)"
      unfolding items by (simp add: e2 length_filter_sort_key)
    also have "\<dots> \<le> length (filter (\<lambda>e. norm_text e = s) n)" by (rule length_filter_conj_le)
    also have "\<dots> \<le> 1" using distinct_map_filter_le1 [OF dn] .
    finally show ?thesis .
  qed
  moreover have "length (filter ?B items) \<le> 1"
  proof -
    have "length (filter ?B items) = length (filter ?B b)"
      unfolding items by (simp add: e3 length_filter_sort_key)
    also have "\<dots> \<le> length (filter (\<lambda>e. meta e = m) b)" by (rule length_filter_conj_le)
    also have "\<dots> \<le> 1" using distinct_map_filter_le1 [OF db] .
    finally show ?thesis .
  qed
  ultimately show ?thesis by blast
qed

theorem exact_duplicates_collapse_witness:
  "str ''alpha'' \<noteq> [] \<and>
   dedup_by_book [sample 0 Highlight (Some 10, Some 12) None ''alpha'',
                  sample 1 Highlight (Some 500, Some 502) (Some 99) ''alpha''] 300 12 =
     Inr [(str ''Book'', [sample 1 Highlight (Some 500, Some 502) (Some 99) ''alpha''])] \<and>
   length [e\<leftarrow>[sample 1 Highlight (Some 500, Some 502) (Some 99) ''alpha''].
             (kind e = Highlight \<or> kind e = Unknown) \<and> norm_text e = str ''alpha''] \<le> 1"
proof -
  let ?es = "[sample 0 Highlight (Some 10, Some 12) None ''alpha'',
                  sample 1 Highlight (Some 500, Some 502) (Some 99) ''alpha'']"
  let ?items = "[sample 1 Highlight (Some 500, Some 502) (Some 99) ''alpha'']"
  have v: "dedup_by_book ?es 300 12 = Inr [(str ''Book'', ?items)]" by code_simp
  have m: "(str ''Book'', ?items) \<in> set [(str ''Book'', ?items)]" by simp
  have s: "str ''alpha'' \<noteq> []" by (simp add: str_def)
  show ?thesis using exact_duplicates_collapse [OF v m, of "str ''alpha''" "[]"] v s by blast
qed

section \<open>Order of the output\<close>






section \<open>Running the deduplication on its own output\<close>


















end
